theory Spec2Isabelle
  imports Complex_Main "HOL-Library.Word"
begin

section \<open>Data model of jhr::Skip\_List\<close>

text \<open>
  The skip list of \<^verbatim>\<open>jhr_skip_list.hpp\<close> is a pointer structure: a sentinel head node
  and one heap node per element, each with an array of links (\<^verbatim>\<open>forward_\<close>), a link
  being a width and a pointer to the next node of that level. The embedding keeps the
  pointers: nodes live in an explicit store from addresses to nodes, every dereference
  of the source is a read of that store, and every failure of such a read (a null
  pointer, an index outside the link array, a freed node) is an error value.

  \<^verbatim>\<open>size_t\<close> is a 64-bit word where the source computes with widths and sizes (they are
  decremented and subtracted, so wrap-around matters); levels index arrays and are
  natural numbers, with the one wrapping subtraction \<^verbatim>\<open>kMaxLevel_ - 1\<close> written out.
\<close>

type_synonym size_t = "64 word"
type_synonym addr = nat

record Skip_Link =
  width :: size_t
  node :: "addr option"

text \<open>
  A node: \<^verbatim>\<open>ptr_\<close> is the pointer to the element (null for the head), modelled by the
  element it points to; \<^verbatim>\<open>forward_\<close> is the link array. The private field
  \<^verbatim>\<open>Skip_Node::level_\<close> is written once by the constructor and never read; it is the
  length of \<^verbatim>\<open>forward_\<close>.
  Isabelle names cannot end in an underscore: a member \<^verbatim>\<open>name_\<close> of the source
  is the field \<open>name_m\<close> here.
\<close>

record 'a Skip_Node =
  ptr_m :: "'a option"
  forward_m :: "Skip_Link list"

type_synonym 'a heap = "addr \<Rightarrow> 'a Skip_Node option"

record 'a Skip_List =
  kMaxLevel_m :: nat
  p_m :: real
  level_m :: nat
  width_m :: size_t
  head_m :: addr
  heap :: "'a heap"

datatype error = NullDeref | OutOfBounds | Dangling

text \<open>
  The result of a call: \<open>None\<close> when the call does not return (a loop that runs
  forever), \<open>Some (Inl e)\<close> when it faults, \<open>Some (Inr v)\<close> when it returns \<open>v\<close>.
\<close>

type_synonym 'r result = "(error + 'r) option"

definition bindE :: "error + 'b \<Rightarrow> ('b \<Rightarrow> error + 'c) \<Rightarrow> error + 'c" where
  "bindE m f = (case m of Inl e \<Rightarrow> Inl e | Inr v \<Rightarrow> f v)"

definition liftE :: "error + 'b \<Rightarrow> ('b \<Rightarrow> 'c result) \<Rightarrow> 'c result" where
  "liftE m f = (case m of Inl e \<Rightarrow> Some (Inl e) | Inr v \<Rightarrow> f v)"

definition bindR :: "'b result \<Rightarrow> ('b \<Rightarrow> 'c result) \<Rightarrow> 'c result" where
  "bindR m f = (case m of None \<Rightarrow> None | Some (Inl e) \<Rightarrow> Some (Inl e) | Some (Inr v) \<Rightarrow> f v)"

subsection \<open>Memory accesses\<close>

text \<open>\<^verbatim>\<open>Skip_Link()\<close>: the default member initialisers, width 1 and a null target.\<close>

definition default_link :: Skip_Link where
  "default_link = \<lparr>width = 1, node = None\<rparr>"

text \<open>\<^verbatim>\<open>Skip_Node(ptr, level)\<close>: \<open>level\<close> default links.\<close>

definition CreateNode :: "'a option \<Rightarrow> nat \<Rightarrow> 'a Skip_Node" where
  "CreateNode ptr level = \<lparr>ptr_m = ptr, forward_m = replicate level default_link\<rparr>"

text \<open>\<^verbatim>\<open>x->forward_[i]\<close>, read.\<close>

definition read_link :: "'a heap \<Rightarrow> addr \<Rightarrow> nat \<Rightarrow> error + Skip_Link" where
  "read_link h x i =
     (case h x of
        None \<Rightarrow> Inl Dangling
      | Some n \<Rightarrow> if i < length (forward_m n) then Inr (forward_m n ! i) else Inl OutOfBounds)"

text \<open>\<^verbatim>\<open>x->forward_[i] = l\<close>, write.\<close>

definition write_link :: "'a heap \<Rightarrow> addr \<Rightarrow> nat \<Rightarrow> Skip_Link \<Rightarrow> error + 'a heap" where
  "write_link h x i l =
     (case h x of
        None \<Rightarrow> Inl Dangling
      | Some n \<Rightarrow>
          if i < length (forward_m n)
          then Inr (h(x \<mapsto> n\<lparr>forward_m := (forward_m n)[i := l]\<rparr>))
          else Inl OutOfBounds)"

text \<open>\<^verbatim>\<open>x->forward_[i].node = v\<close> and \<^verbatim>\<open>x->forward_[i].width = w\<close>.\<close>

definition set_node :: "'a heap \<Rightarrow> addr \<Rightarrow> nat \<Rightarrow> addr option \<Rightarrow> error + 'a heap" where
  "set_node h x i v = bindE (read_link h x i) (\<lambda>l. write_link h x i (l\<lparr>node := v\<rparr>))"

definition set_width :: "'a heap \<Rightarrow> addr \<Rightarrow> nat \<Rightarrow> size_t \<Rightarrow> error + 'a heap" where
  "set_width h x i w = bindE (read_link h x i) (\<lambda>l. write_link h x i (l\<lparr>width := w\<rparr>))"

text \<open>\<^verbatim>\<open>*(x->ptr_)\<close>: the element of node \<open>x\<close>; the head's \<^verbatim>\<open>ptr_\<close> is null.\<close>

definition deref_ptr :: "'a heap \<Rightarrow> addr \<Rightarrow> error + 'a" where
  "deref_ptr h x =
     (case h x of
        None \<Rightarrow> Inl Dangling
      | Some n \<Rightarrow> (case ptr_m n of None \<Rightarrow> Inl NullDeref | Some v \<Rightarrow> Inr v))"

text \<open>Following a pointer that may be null.\<close>

definition nonnull :: "addr option \<Rightarrow> error + addr" where
  "nonnull p = (case p of None \<Rightarrow> Inl NullDeref | Some x \<Rightarrow> Inr x)"

text \<open>The local arrays \<^verbatim>\<open>update\<close> and \<^verbatim>\<open>update_width\<close>: reads and writes with their bounds.\<close>

definition arr_get :: "'b list \<Rightarrow> nat \<Rightarrow> error + 'b" where
  "arr_get xs i = (if i < length xs then Inr (xs ! i) else Inl OutOfBounds)"

definition arr_set :: "'b list \<Rightarrow> nat \<Rightarrow> 'b \<Rightarrow> error + 'b list" where
  "arr_set xs i v = (if i < length xs then Inr (xs[i := v]) else Inl OutOfBounds)"

subsection \<open>Construction, length, empty\<close>

text \<open>
  \<^verbatim>\<open>Skip_List(max_level, p)\<close>; \<open>a\<close> is the address \<^verbatim>\<open>new\<close> returns for the head.
  \<^verbatim>\<open>Skip_List()\<close> uses the default member initialisers 16 and 0.5.
\<close>

definition Skip_List_ctor :: "nat \<Rightarrow> real \<Rightarrow> addr \<Rightarrow> 'a Skip_List" where
  "Skip_List_ctor max_level p a =
     \<lparr>kMaxLevel_m = max_level, p_m = p, level_m = 1, width_m = 0, head_m = a,
      heap = (\<lambda>_. None)(a \<mapsto> CreateNode None max_level)\<rparr>"

definition Skip_List_default :: "addr \<Rightarrow> 'a Skip_List" where
  "Skip_List_default a = Skip_List_ctor 16 (1 / 2) a"

definition length_sl :: "'a Skip_List \<Rightarrow> size_t" where
  "length_sl s = width_m s"

definition empty_sl :: "'a Skip_List \<Rightarrow> error + bool" where
  "empty_sl s = bindE (read_link (heap s) (head_m s) 0) (\<lambda>l. Inr (node l = None))"

subsection \<open>RandomLevel\<close>

text \<open>
  \<^verbatim>\<open>kMaxLevel_ - 1\<close> on \<^verbatim>\<open>size_t\<close>: it wraps to \<open>2^64 - 1\<close> when \<^verbatim>\<open>kMaxLevel_\<close> is 0.
\<close>

definition size_t_pred :: "nat \<Rightarrow> nat" where
  "size_t_pred n = (if n = 0 then 2 ^ 64 - 1 else n - 1)"

text \<open>
  The loop of \<^verbatim>\<open>RandomLevel\<close>. \<open>rnd k\<close> is the value of the \<open>k\<close>-th
  \<^verbatim>\<open>std::rand() / static_cast<float>(RAND_MAX)\<close> of this call, \<open>n\<close> the index of the
  draw held in \<^verbatim>\<open>rnd\<close>, \<open>cap\<close> is \<^verbatim>\<open>kMaxLevel_ - 1\<close>.
\<close>

function RandomLevel_while :: "(nat \<Rightarrow> real) \<Rightarrow> real \<Rightarrow> nat \<Rightarrow> nat \<Rightarrow> nat \<Rightarrow> nat" where
  "RandomLevel_while rnd p cap n level =
     (if rnd n < p \<and> level < cap
      then RandomLevel_while rnd p cap (Suc n) (Suc level)
      else level)"
  by pat_completeness auto
termination
  by (relation "measure (\<lambda>(rnd, p, cap, n, level). cap - level)") auto

declare RandomLevel_while.simps [simp del]

definition RandomLevel :: "(nat \<Rightarrow> real) \<Rightarrow> 'a Skip_List \<Rightarrow> nat" where
  "RandomLevel rnd s = RandomLevel_while rnd (p_m s) (size_t_pred (kMaxLevel_m s)) 0 1"

subsection \<open>at and the index operator\<close>

text \<open>
  The inner \<^verbatim>\<open>while\<close> of \<^verbatim>\<open>at\<close> on the links of index \<open>j\<close> (\<^verbatim>\<open>i - 1\<close> in the source).
  It ends with \<open>Inl y\<close> when the source returns node \<open>y\<close> from inside the loop and with
  \<open>Inr (w, x)\<close> when the loop condition fails.
\<close>

partial_function (option) at_while ::
  "'a heap \<Rightarrow> nat \<Rightarrow> size_t \<Rightarrow> addr \<Rightarrow> (addr + size_t \<times> addr) result" where
  "at_while h j w x =
     (case read_link h x j of
        Inl e \<Rightarrow> Some (Inl e)
      | Inr l \<Rightarrow>
          (case node l of
             None \<Rightarrow> Some (Inr (Inr (w, x)))
           | Some y \<Rightarrow>
               if width l \<le> w
               then (if w - width l = 0 then Some (Inr (Inl y))
                     else at_while h j (w - width l) y)
               else Some (Inr (Inr (w, x)))))"

declare at_while.simps [code]

text \<open>The \<^verbatim>\<open>for (i = level_; i > 0; i--)\<close> of \<^verbatim>\<open>at\<close>; falling out of it returns null.\<close>

fun at_for :: "'a heap \<Rightarrow> nat \<Rightarrow> size_t \<Rightarrow> addr \<Rightarrow> (addr option) result" where
  "at_for h 0 w x = Some (Inr None)"
| "at_for h (Suc j) w x =
     (case at_while h j w x of
        None \<Rightarrow> None
      | Some (Inl e) \<Rightarrow> Some (Inl e)
      | Some (Inr (Inl y)) \<Rightarrow> Some (Inr (Some y))
      | Some (Inr (Inr (w', x'))) \<Rightarrow> at_for h j w' x')"

text \<open>
  \<^verbatim>\<open>at(index)\<close>: the returned node pointer, and the list after the call.
\<close>

definition at_sl :: "'a Skip_List \<Rightarrow> size_t \<Rightarrow> (addr option \<times> 'a Skip_List) result" where
  "at_sl s index =
     (if index \<ge> width_m s then Some (Inr (None, s))
      else bindR (at_for (heap s) (level_m s) (index + 1) (head_m s)) (\<lambda>r. Some (Inr (r, s))))"

text \<open>\<^verbatim>\<open>operator[](index) { return at(index); }\<close>\<close>

definition index_operator :: "'a Skip_List \<Rightarrow> size_t \<Rightarrow> (addr option \<times> 'a Skip_List) result" where
  "index_operator s index = at_sl s index"

subsection \<open>The key search shared by find, insert and remove\<close>

text \<open>
  The three functions run the same inner loop,
  \<^verbatim>\<open>while (x->forward_[i-1].node != nullptr && *(x->forward_[i-1].node->ptr_) < *ptr)\<close>;
  \<^verbatim>\<open>insert\<close> also adds the widths of the links it follows to \<^verbatim>\<open>width_sum\<close>.
  \<open>search_while\<close> is that loop with the accumulator; \<^verbatim>\<open>find\<close> and \<^verbatim>\<open>remove\<close> use
  its node only.
\<close>

partial_function (option) search_while ::
  "'a::linorder heap \<Rightarrow> 'a \<Rightarrow> nat \<Rightarrow> size_t \<Rightarrow> addr \<Rightarrow> (size_t \<times> addr) result" where
  "search_while h key j width_sum x =
     (case read_link h x j of
        Inl e \<Rightarrow> Some (Inl e)
      | Inr l \<Rightarrow>
          (case node l of
             None \<Rightarrow> Some (Inr (width_sum, x))
           | Some y \<Rightarrow>
               (case deref_ptr h y of
                  Inl e \<Rightarrow> Some (Inl e)
                | Inr v \<Rightarrow>
                    if v < key then search_while h key j (width_sum + width l) y
                    else Some (Inr (width_sum, x)))))"

declare search_while.simps [code]

subsection \<open>find\<close>

fun find_for :: "'a::linorder heap \<Rightarrow> 'a \<Rightarrow> nat \<Rightarrow> addr \<Rightarrow> addr result" where
  "find_for h key 0 x = Some (Inr x)"
| "find_for h key (Suc j) x =
     bindR (search_while h key j 0 x) (\<lambda>(ws, x'). find_for h key j x')"

text \<open>
  \<^verbatim>\<open>x = x->forward_[0].node; if (*(x->ptr_) == *ptr) return x; return nullptr;\<close>
  The source does not test \<open>x\<close> before it reads \<^verbatim>\<open>x->ptr_\<close>.
\<close>

definition find_sl :: "'a::linorder Skip_List \<Rightarrow> 'a \<Rightarrow> (addr option \<times> 'a Skip_List) result" where
  "find_sl s key =
     bindR (find_for (heap s) key (level_m s) (head_m s)) (\<lambda>x.
     liftE (read_link (heap s) x 0) (\<lambda>l.
     liftE (nonnull (node l)) (\<lambda>y.
     liftE (deref_ptr (heap s) y) (\<lambda>v.
       if v = key then Some (Inr (Some y, s)) else Some (Inr (None, s))))))"

subsection \<open>insert\<close>

text \<open>
  The search of \<^verbatim>\<open>insert\<close>: \<^verbatim>\<open>for (i = level_; i > 0; i--)\<close>, recording for each
  level the node where the search left it and the sum of the widths it followed there.
\<close>

fun insert_for ::
  "'a::linorder heap \<Rightarrow> 'a \<Rightarrow> nat \<Rightarrow> addr \<Rightarrow> addr option list \<Rightarrow> size_t list \<Rightarrow>
   (addr \<times> addr option list \<times> size_t list) result" where
  "insert_for h key 0 x update update_width = Some (Inr (x, update, update_width))"
| "insert_for h key (Suc j) x update update_width =
     (case search_while h key j 0 x of
        None \<Rightarrow> None
      | Some (Inl e) \<Rightarrow> Some (Inl e)
      | Some (Inr (width_sum, x')) \<Rightarrow>
          (case arr_set update j (Some x') of
             Inl e \<Rightarrow> Some (Inl e)
           | Inr update' \<Rightarrow>
               (case arr_set update_width j width_sum of
                  Inl e \<Rightarrow> Some (Inl e)
                | Inr update_width' \<Rightarrow> insert_for h key j x' update' update_width')))"

text \<open>
  \<^verbatim>\<open>for (i = level_; i < level; i++) { update[i] = head_; head_->forward_[i].width = 0; }\<close>
\<close>

function raise_for ::
  "'a heap \<Rightarrow> addr \<Rightarrow> nat \<Rightarrow> nat \<Rightarrow> addr option list \<Rightarrow> error + 'a heap \<times> addr option list" where
  "raise_for h head level i update =
     (if i < level
      then (case arr_set update i (Some head) of
              Inl e \<Rightarrow> Inl e
            | Inr update' \<Rightarrow>
                (case set_width h head i 0 of
                   Inl e \<Rightarrow> Inl e
                 | Inr h' \<Rightarrow> raise_for h' head level (Suc i) update'))
      else Inr (h, update))"
  by pat_completeness auto
termination
  by (relation "measure (\<lambda>(h, head, level, i, update). level - i)") auto

declare raise_for.simps [simp del]

text \<open>
  The width repair of one level \<open>i > 0\<close> of the new node (the body of \<^verbatim>\<open>if (i > 0)\<close>);
  \<open>ui\<close> is \<^verbatim>\<open>update[i]\<close>.
\<close>

definition insert_widths ::
  "'a heap \<Rightarrow> addr \<Rightarrow> addr \<Rightarrow> addr option list \<Rightarrow> size_t list \<Rightarrow> nat \<Rightarrow> error + 'a heap" where
  "insert_widths h new_node ui update update_width i =
     bindE (arr_get update_width (i - 1)) (\<lambda>uw.
     bindE (arr_get update (i - 1)) (\<lambda>u.
     bindE (nonnull u) (\<lambda>uj.
     bindE (read_link h uj (i - 1)) (\<lambda>lj.
     bindE (read_link h ui i) (\<lambda>li.
     bindE (if width li > 0
            then set_width h new_node i (width li + 1 - (uw + width lj))
            else set_width h new_node i 0) (\<lambda>h'.
     set_width h' ui i (uw + width lj)))))))"

text \<open>The body of \<^verbatim>\<open>for (i = 0; i < level; i++)\<close>: link the new node in at level \<open>i\<close>.\<close>

definition insert_step ::
  "'a heap \<Rightarrow> addr \<Rightarrow> addr option list \<Rightarrow> size_t list \<Rightarrow> nat \<Rightarrow> error + 'a heap" where
  "insert_step h new_node update update_width i =
     bindE (arr_get update i) (\<lambda>u.
     bindE (nonnull u) (\<lambda>ui.
     bindE (read_link h ui i) (\<lambda>l.
     bindE (set_node h new_node i (node l)) (\<lambda>h1.
     bindE (set_node h1 ui i (Some new_node)) (\<lambda>h2.
       if i > 0 then insert_widths h2 new_node ui update update_width i else Inr h2)))))"

function insert_loop ::
  "'a heap \<Rightarrow> addr \<Rightarrow> addr option list \<Rightarrow> size_t list \<Rightarrow> nat \<Rightarrow> nat \<Rightarrow> error + 'a heap" where
  "insert_loop h new_node update update_width level i =
     (if i < level
      then (case insert_step h new_node update update_width i of
              Inl e \<Rightarrow> Inl e
            | Inr h' \<Rightarrow> insert_loop h' new_node update update_width level (Suc i))
      else Inr h)"
  by pat_completeness auto
termination
  by (relation "measure (\<lambda>(h, new_node, update, update_width, level, i). level - i)") auto

declare insert_loop.simps [simp del]

text \<open>
  \<^verbatim>\<open>if (x->forward_[0].node != nullptr) if (*(x->forward_[0].node->ptr_) == *ptr)
  return x->forward_[0].node;\<close>: the node to return, if the test succeeds.
\<close>

definition insert_dup :: "'a heap \<Rightarrow> 'a \<Rightarrow> addr \<Rightarrow> error + addr option" where
  "insert_dup h key x =
     bindE (read_link h x 0) (\<lambda>l.
       case node l of
         None \<Rightarrow> Inr None
       | Some y \<Rightarrow> bindE (deref_ptr h y) (\<lambda>v. Inr (if v = key then Some y else None)))"

text \<open>
  \<^verbatim>\<open>insert(ptr)\<close>. \<open>rnd\<close> are the random draws of this call and \<open>a\<close> is the address
  \<^verbatim>\<open>new\<close> returns for the node, if the call creates one. The steps are in the order of
  the source: search, draw the level, raise \<^verbatim>\<open>level_\<close>, test for a duplicate, create and
  link the node, count it.
\<close>

definition insert_sl ::
  "'a::linorder Skip_List \<Rightarrow> 'a \<Rightarrow> (nat \<Rightarrow> real) \<Rightarrow> addr \<Rightarrow> (addr \<times> 'a Skip_List) result" where
  "insert_sl s key rnd a =
     bindR (insert_for (heap s) key (level_m s) (head_m s)
              (replicate (kMaxLevel_m s) None) (replicate (kMaxLevel_m s) 0))
       (\<lambda>(x, update, update_width).
     let level = RandomLevel rnd s in
     liftE (if level > level_m s
            then bindE (raise_for (heap s) (head_m s) level (level_m s) update)
                   (\<lambda>(h, u). Inr (h, u, level))
            else Inr (heap s, update, level_m s))
       (\<lambda>(h1, update1, level1).
     liftE (insert_dup h1 key x) (\<lambda>dup.
       case dup of
         Some y \<Rightarrow> Some (Inr (y, s\<lparr>level_m := level1, heap := h1\<rparr>))
       | None \<Rightarrow>
           liftE (insert_loop (h1(a \<mapsto> CreateNode (Some key) level)) a update1 update_width level 0)
             (\<lambda>h3. Some (Inr (a, s\<lparr>level_m := level1, width_m := width_m s + 1, heap := h3\<rparr>))))))"

subsection \<open>remove\<close>

fun remove_for ::
  "'a::linorder heap \<Rightarrow> 'a \<Rightarrow> nat \<Rightarrow> addr \<Rightarrow> addr option list \<Rightarrow>
   (addr \<times> addr option list) result" where
  "remove_for h key 0 x update = Some (Inr (x, update))"
| "remove_for h key (Suc j) x update =
     (case search_while h key j 0 x of
        None \<Rightarrow> None
      | Some (Inl e) \<Rightarrow> Some (Inl e)
      | Some (Inr (width_sum, x')) \<Rightarrow>
          (case arr_set update j (Some x') of
             Inl e \<Rightarrow> Some (Inl e)
           | Inr update' \<Rightarrow> remove_for h key j x' update'))"

text \<open>The body of \<^verbatim>\<open>for (i = 0; i < level_; i++)\<close> of \<^verbatim>\<open>remove\<close>; \<open>x\<close> is the node to remove.\<close>

definition remove_step :: "'a heap \<Rightarrow> addr \<Rightarrow> addr option list \<Rightarrow> nat \<Rightarrow> error + 'a heap" where
  "remove_step h x update i =
     bindE (arr_get update i) (\<lambda>u.
     bindE (nonnull u) (\<lambda>ui.
     bindE (read_link h ui i) (\<lambda>l.
       if node l \<noteq> Some x then set_width h ui i (width l - 1)
       else
         bindE (read_link h x i) (\<lambda>lx.
         bindE (set_node h ui i (node lx)) (\<lambda>h1.
         bindE (set_node h1 x i None) (\<lambda>h2.
         bindE (read_link h2 x i) (\<lambda>lx2.
           if width lx2 > 0
           then bindE (read_link h2 ui i) (\<lambda>lu. set_width h2 ui i (width lu + (width lx2 - 1)))
           else set_width h2 ui i 0)))))))"

function remove_loop ::
  "'a heap \<Rightarrow> addr \<Rightarrow> addr option list \<Rightarrow> nat \<Rightarrow> nat \<Rightarrow> error + 'a heap" where
  "remove_loop h x update level i =
     (if i < level
      then (case remove_step h x update i of
              Inl e \<Rightarrow> Inl e
            | Inr h' \<Rightarrow> remove_loop h' x update level (Suc i))
      else Inr h)"
  by pat_completeness auto
termination
  by (relation "measure (\<lambda>(h, x, update, level, i). level - i)") auto

declare remove_loop.simps [simp del]

text \<open>
  \<^verbatim>\<open>while (level_ > 1 && head_->forward_[level_ - 1].node == nullptr) level_--;\<close>
\<close>

function lower_level :: "'a heap \<Rightarrow> addr \<Rightarrow> nat \<Rightarrow> error + nat" where
  "lower_level h head level =
     (if level > 1
      then (case read_link h head (level - 1) of
              Inl e \<Rightarrow> Inl e
            | Inr l \<Rightarrow> if node l = None then lower_level h head (level - 1) else Inr level)
      else Inr level)"
  by pat_completeness auto
termination
  by (relation "measure (\<lambda>(h, head, level). level)") auto

declare lower_level.simps [simp del]

text \<open>\<^verbatim>\<open>T* old_data = x->ptr_;\<close>\<close>

definition read_ptr :: "'a heap \<Rightarrow> addr \<Rightarrow> error + 'a option" where
  "read_ptr h x = (case h x of None \<Rightarrow> Inl Dangling | Some n \<Rightarrow> Inr (ptr_m n))"

text \<open>
  \<^verbatim>\<open>remove(ptr)\<close>: the returned element pointer (null when the key is not found) and
  the list after the call. \<^verbatim>\<open>x = x->forward_[0].node\<close> is followed by a read of
  \<^verbatim>\<open>x->ptr_\<close> with no test of \<open>x\<close>. \<^verbatim>\<open>delete x\<close> takes the node out of the store.
  The source has no statement that changes \<^verbatim>\<open>width_\<close> in \<^verbatim>\<open>remove\<close>.
\<close>

definition remove_sl :: "'a::linorder Skip_List \<Rightarrow> 'a \<Rightarrow> ('a option \<times> 'a Skip_List) result" where
  "remove_sl s key =
     bindR (remove_for (heap s) key (level_m s) (head_m s) (replicate (level_m s) None))
       (\<lambda>(x0, update).
     liftE (read_link (heap s) x0 0) (\<lambda>l.
     liftE (nonnull (node l)) (\<lambda>x.
     liftE (deref_ptr (heap s) x) (\<lambda>v.
       if \<not> (v = key) then Some (Inr (None, s))
       else
         liftE (remove_loop (heap s) x update (level_m s) 0) (\<lambda>h1.
         liftE (read_ptr h1 x) (\<lambda>old_data.
         liftE (lower_level (h1(x := None)) (head_m s) (level_m s)) (\<lambda>level'.
           Some (Inr (old_data, s\<lparr>level_m := level', heap := h1(x := None)\<rparr>)))))))))"

subsection \<open>MaxLevel\<close>

text \<open>
  \<^verbatim>\<open>if (!(0.0F <= p <= 1.0F)) return 0; return static_cast<size_t>(log(N) / log(1 / p));\<close>
  In C++ \<^verbatim>\<open>0.0F <= p <= 1.0F\<close> is \<^verbatim>\<open>(0.0F <= p) <= 1.0F\<close>: the truth value of the first
  comparison, converted to the number 0 or 1, is compared with 1. The floating-point
  formula and its conversion to \<^verbatim>\<open>size_t\<close> are the parameter \<open>formula\<close>; the parameter
  \<open>zero_le\<close> is the floating-point comparison \<^verbatim>\<open>0.0F <= p\<close>.
\<close>

definition MaxLevel ::
  "('f \<Rightarrow> bool) \<Rightarrow> (size_t \<Rightarrow> 'f \<Rightarrow> size_t) \<Rightarrow> size_t \<Rightarrow> 'f \<Rightarrow> size_t" where
  "MaxLevel zero_le formula N p =
     (if \<not> ((if zero_le p then (1::real) else 0) \<le> 1) then 0 else formula N p)"

subsection \<open>The level-0 walk\<close>

text \<open>
  The destructor and the last loop of \<^verbatim>\<open>DisplayList\<close> walk level 0 from the head:
  \<^verbatim>\<open>node = head_; while (node != nullptr) { ...; node = node->forward_[0].node; }\<close>.
  \<open>level0_while\<close> is that walk alone, as an observation of the level-0 chain: it
  reads \<^verbatim>\<open>node->ptr_\<close> and \<^verbatim>\<open>node->forward_[0].node\<close> of every node it meets and collects
  in \<open>out\<close> the element of every node that has one. What the two loops do with a
  node besides (the destructor deletes it, \<^verbatim>\<open>DisplayList\<close> formats and prints its element)
  is not part of it, so it says nothing on whether \<^verbatim>\<open>DisplayList\<close> or the destructor
  returns.
\<close>

partial_function (option) level0_while ::
  "'a heap \<Rightarrow> addr option \<Rightarrow> 'a list \<Rightarrow> ('a list) result" where
  "level0_while h nd out =
     (case nd of
        None \<Rightarrow> Some (Inr out)
      | Some x \<Rightarrow>
          (case read_ptr h x of
             Inl e \<Rightarrow> Some (Inl e)
           | Inr p \<Rightarrow>
               (case read_link h x 0 of
                  Inl e \<Rightarrow> Some (Inl e)
                | Inr l \<Rightarrow>
                    level0_while h (node l) (case p of None \<Rightarrow> out | Some v \<Rightarrow> out @ [v]))))"

declare level0_while.simps [code]

definition level0_elements :: "'a Skip_List \<Rightarrow> ('a list) result" where
  "level0_elements s = level0_while (heap s) (Some (head_m s)) []"

section \<open>Reachable lists\<close>

text \<open>
  The lists a program can hold: a constructed list (with a positive \<^verbatim>\<open>max_level\<close>
  that fits \<^verbatim>\<open>size_t\<close>), and the list left by a returning \<^verbatim>\<open>insert\<close> or \<^verbatim>\<open>remove\<close>
  on such a list. The address \<^verbatim>\<open>new\<close> hands to \<^verbatim>\<open>insert\<close> is any address that holds
  no live node.
\<close>

inductive reachable :: "'a::linorder Skip_List \<Rightarrow> bool" where
  ctor: "0 < max_level \<Longrightarrow> max_level < 2 ^ 64 \<Longrightarrow> reachable (Skip_List_ctor max_level p a)"
| ins: "reachable s \<Longrightarrow> heap s a = None \<Longrightarrow> insert_sl s key rnd a = Some (Inr (r, s')) \<Longrightarrow>
        reachable s'"
| rem: "reachable s \<Longrightarrow> remove_sl s key = Some (Inr (r, s')) \<Longrightarrow> reachable s'"

text \<open>The list a returning call leaves behind.\<close>

definition state_of :: "('r \<times> 's) result \<Rightarrow> 's" where
  "state_of c = snd (projr (the c))"

definition returns :: "'r result \<Rightarrow> bool" where
  "returns c = (case c of Some (Inr v) \<Rightarrow> True | _ \<Rightarrow> False)"

section \<open>Lanes\<close>

text \<open>
  What the links of level \<open>j\<close> say about node \<open>x\<close>: \<open>None\<close> when \<open>x\<close> is not a live
  node with a link \<open>j\<close>, otherwise the target of that link. \<open>elem\<close> is the element
  of a live node.
\<close>

definition next_at :: "'a heap \<Rightarrow> nat \<Rightarrow> addr \<Rightarrow> addr option option" where
  "next_at h j x = (case read_link h x j of Inl e \<Rightarrow> None | Inr l \<Rightarrow> Some (node l))"

definition elem :: "'a heap \<Rightarrow> addr \<Rightarrow> 'a option" where
  "elem h x = (case h x of None \<Rightarrow> None | Some n \<Rightarrow> ptr_m n)"

text \<open>
  \<open>lane f x ys\<close>: following \<open>f\<close> from \<open>x\<close> visits exactly the nodes \<open>ys\<close> and
  then reaches the null pointer. \<open>chain f x ys\<close> is the same without the end.
\<close>

primrec lane :: "(addr \<Rightarrow> addr option option) \<Rightarrow> addr \<Rightarrow> addr list \<Rightarrow> bool" where
  "lane f x [] = (f x = Some None)"
| "lane f x (y # ys) = (f x = Some (Some y) \<and> lane f y ys)"

primrec chain :: "(addr \<Rightarrow> addr option option) \<Rightarrow> addr \<Rightarrow> addr list \<Rightarrow> bool" where
  "chain f x [] = True"
| "chain f x (y # ys) = (f x = Some (Some y) \<and> chain f y ys)"

definition keys :: "'a heap \<Rightarrow> addr list \<Rightarrow> 'a list" where
  "keys h ys = map (\<lambda>y. the (elem h y)) ys"

text \<open>The node a key search stops at on a lane: the last one with a smaller element.\<close>

definition below :: "'a::linorder heap \<Rightarrow> 'a \<Rightarrow> addr \<Rightarrow> bool" where
  "below h key y = (the (elem h y) < key)"

definition pred_of :: "'a::linorder heap \<Rightarrow> 'a \<Rightarrow> addr \<Rightarrow> addr list \<Rightarrow> addr" where
  "pred_of h key x ys = last (x # takeWhile (below h key) ys)"

text \<open>
  The structural invariant, for given lanes \<open>L\<close>: the lane of every level starts at
  the head and ends at null, its nodes hold elements in strictly ascending order, it
  is empty from \<^verbatim>\<open>level_\<close> on, and every node of a lane is on the lane below.
\<close>

definition lane_ok :: "'a::linorder Skip_List \<Rightarrow> (nat \<Rightarrow> addr list) \<Rightarrow> nat \<Rightarrow> bool" where
  "lane_ok s L j =
     (lane (next_at (heap s) j) (head_m s) (L j) \<and>
      list_all (\<lambda>y. elem (heap s) y \<noteq> None) (L j) \<and>
      sorted_wrt (<) (keys (heap s) (L j)) \<and>
      (level_m s \<le> j \<longrightarrow> L j = []) \<and>
      (0 < j \<longrightarrow> set (L j) \<subseteq> set (L (j - 1))))"

definition lanes_ok :: "'a::linorder Skip_List \<Rightarrow> (nat \<Rightarrow> addr list) \<Rightarrow> bool" where
  "lanes_ok s L =
     (1 \<le> level_m s \<and> level_m s \<le> kMaxLevel_m s \<and> kMaxLevel_m s < 2 ^ 64 \<and>
      elem (heap s) (head_m s) = None \<and>
      list_all (lane_ok s L) [0 ..< kMaxLevel_m s])"

text \<open>The width the link \<open>j\<close> of node \<open>x\<close> carries, if \<open>x\<close> is a live node with such a link.\<close>

definition width_at :: "'a heap \<Rightarrow> nat \<Rightarrow> addr \<Rightarrow> size_t option" where
  "width_at h j x = (case read_link h x j of Inl e \<Rightarrow> None | Inr l \<Rightarrow> Some (width l))"

text \<open>Every link of index 0 carries width 1.\<close>

definition level0_ones :: "'a heap \<Rightarrow> bool" where
  "level0_ones h = (\<forall>x w. width_at h 0 x = Some w \<longrightarrow> w = 1)"

section \<open>Example lists\<close>

text \<open>
  The default list at address 0 after \<^verbatim>\<open>insert(6)\<close> with a drawn level 2 (node 1),
  then \<^verbatim>\<open>insert(3)\<close> with a drawn level 1 (node 2), then \<^verbatim>\<open>remove(6)\<close>.
\<close>

definition list_6 :: "int Skip_List" where
  "list_6 = state_of (insert_sl (Skip_List_default 0) 6 (\<lambda>n. if n = 0 then 0 else 1) 1)"

definition list_3_6 :: "int Skip_List" where
  "list_3_6 = state_of (insert_sl list_6 3 (\<lambda>n. 1) 2)"

definition list_3 :: "int Skip_List" where
  "list_3 = state_of (remove_sl list_3_6 6)"

section \<open>Lemmas\<close>

subsection \<open>Results\<close>

lemma bindE_simps [simp]: "bindE (Inl e) f = Inl e" "bindE (Inr v) f = f v"
  by (simp_all add: bindE_def)

lemma liftE_simps [simp]: "liftE (Inl e) g = Some (Inl e)" "liftE (Inr v) g = g v"
  by (simp_all add: liftE_def)

lemma bindR_simps [simp]:
  "bindR None k = None" "bindR (Some (Inl e)) k = Some (Inl e)" "bindR (Some (Inr v)) k = k v"
  by (simp_all add: bindR_def)

lemma bindE_Inr: "bindE m f = Inr r \<longleftrightarrow> (\<exists>v. m = Inr v \<and> f v = Inr r)"
  by (cases m) simp_all

lemma liftE_Inr: "liftE m g = Some (Inr r) \<longleftrightarrow> (\<exists>v. m = Inr v \<and> g v = Some (Inr r))"
  by (cases m) simp_all

lemma bindR_Inr: "bindR c k = Some (Inr r) \<longleftrightarrow> (\<exists>v. c = Some (Inr v) \<and> k v = Some (Inr r))"
proof (cases c)
  case None
  then show ?thesis by simp
next
  case (Some a)
  then show ?thesis by (cases a) simp_all
qed

subsection \<open>Memory accesses\<close>

lemma read_link_Inr:
  "read_link h x i = Inr l \<longleftrightarrow> (\<exists>n. h x = Some n \<and> i < length (forward_m n) \<and> l = forward_m n ! i)"
  by (auto simp: read_link_def split: option.splits)

lemma write_link_Inr:
  "write_link h x i l = Inr h' \<longleftrightarrow>
     (\<exists>n. h x = Some n \<and> i < length (forward_m n) \<and>
          h' = h(x \<mapsto> n\<lparr>forward_m := (forward_m n)[i := l]\<rparr>))"
  by (auto simp: write_link_def split: option.splits)

lemma next_at_Some: "next_at h j x = Some t \<longleftrightarrow> (\<exists>l. read_link h x j = Inr l \<and> node l = t)"
  by (auto simp: next_at_def split: sum.splits)

lemma next_at_None_dead: "h x = None \<Longrightarrow> next_at h j x = None"
  by (simp add: next_at_def read_link_def)

lemma elem_None_dead: "h x = None \<Longrightarrow> elem h x = None"
  by (simp add: elem_def)

lemma next_at_write_link:
  "write_link h x i l = Inr h' \<Longrightarrow>
   next_at h' j y = (if y = x \<and> j = i then Some (node l) else next_at h j y)"
proof -
  assume "write_link h x i l = Inr h'"
  then obtain n where n: "h x = Some n" "i < length (forward_m n)"
    and h': "h' = h(x \<mapsto> n\<lparr>forward_m := (forward_m n)[i := l]\<rparr>)"
    by (auto simp: write_link_Inr)
  show ?thesis
  proof (cases "y = x")
    case True
    with n h' show ?thesis by (simp add: next_at_def read_link_def nth_list_update)
  next
    case False
    with h' show ?thesis by (simp add: next_at_def read_link_def)
  qed
qed

lemma elem_write_link: "write_link h x i l = Inr h' \<Longrightarrow> elem h' = elem h"
  by (auto simp: write_link_Inr elem_def fun_eq_iff)

lemma next_at_set_width: "set_width h x i w = Inr h' \<Longrightarrow> next_at h' = next_at h"
proof -
  assume "set_width h x i w = Inr h'"
  then obtain l where l: "read_link h x i = Inr l" and w: "write_link h x i (l\<lparr>width := w\<rparr>) = Inr h'"
    by (auto simp: set_width_def bindE_Inr)
  have "next_at h i x = Some (node l)" using l by (simp add: next_at_def)
  then show ?thesis by (auto simp: fun_eq_iff next_at_write_link[OF w])
qed

lemma elem_set_width: "set_width h x i w = Inr h' \<Longrightarrow> elem h' = elem h"
  by (auto simp: set_width_def bindE_Inr elem_write_link)

lemma next_at_set_node:
  "set_node h x i v = Inr h' \<Longrightarrow>
   next_at h' j y = (if y = x \<and> j = i then Some v else next_at h j y)"
  by (auto simp: set_node_def bindE_Inr next_at_write_link)

lemma set_node_live: "set_node h x i v = Inr h' \<Longrightarrow> next_at h i x \<noteq> None"
  by (auto simp: set_node_def bindE_Inr next_at_def)

lemma elem_set_node: "set_node h x i v = Inr h' \<Longrightarrow> elem h' = elem h"
  by (auto simp: set_node_def bindE_Inr elem_write_link)

lemma next_at_CreateNode:
  "next_at (h(a \<mapsto> CreateNode k level)) j y =
     (if y = a then (if j < level then Some None else None) else next_at h j y)"
  by (simp add: next_at_def read_link_def CreateNode_def default_link_def)

lemma elem_CreateNode: "elem (h(a \<mapsto> CreateNode k level)) = (elem h)(a := k)"
  by (auto simp: elem_def CreateNode_def fun_eq_iff)

lemma next_at_delete: "next_at (h(x := None)) j y = (if y = x then None else next_at h j y)"
  by (simp add: next_at_def read_link_def)

lemma elem_delete: "elem (h(x := None)) = (elem h)(x := None)"
  by (auto simp: elem_def fun_eq_iff)

subsection \<open>Lanes\<close>

lemma last_notin_butlast: "distinct zs \<Longrightarrow> zs \<noteq> [] \<Longrightarrow> last zs \<notin> set (butlast zs)"
  by (induction zs) auto

lemma lane_unique: "lane f x ys \<Longrightarrow> lane f x zs \<Longrightarrow> ys = zs"
proof (induction ys arbitrary: x zs)
  case Nil
  then show ?case by (cases zs) simp_all
next
  case (Cons y ys)
  then show ?case by (cases zs) auto
qed

lemma lane_cong: "(\<And>y. y \<in> set (x # ys) \<Longrightarrow> f y = g y) \<Longrightarrow> lane f x ys = lane g x ys"
  by (induction ys arbitrary: x) auto

lemma chain_cong: "(\<And>y. y \<in> set (butlast (x # ys)) \<Longrightarrow> f y = g y) \<Longrightarrow> chain f x ys = chain g x ys"
proof (induction ys arbitrary: x)
  case Nil
  then show ?case by simp
next
  case (Cons y ys)
  have "f x = g x" using Cons.prems by simp
  moreover have "chain f y ys = chain g y ys"
    using Cons.prems by (intro Cons.IH) (auto split: if_splits)
  ultimately show ?case by simp
qed

lemma lane_append: "lane f x (as @ bs) \<longleftrightarrow> chain f x as \<and> lane f (last (x # as)) bs"
  by (induction as arbitrary: x) auto

lemma lane_live: "lane f x ys \<Longrightarrow> y \<in> set (x # ys) \<Longrightarrow> f y \<noteq> None"
  by (induction ys arbitrary: x) auto

lemma lane_end_Nil: "lane f x ys \<Longrightarrow> f x = Some None \<Longrightarrow> ys = []"
  by (cases ys) simp_all

text \<open>Linking a new node \<open>a\<close> in after the last node of \<open>as\<close>.\<close>

lemma lane_splice:
  assumes l: "lane f x (as @ bs)"
    and d: "distinct (x # as @ bs)"
    and a: "a \<notin> set (x # as @ bs)"
    and g: "\<And>y. g y = (if y = last (x # as) then Some (Some a) else if y = a then f (last (x # as)) else f y)"
  shows "lane g x (as @ a # bs)"
proof -
  let ?p = "last (x # as)"
  have p_in: "?p \<in> set (x # as)" by (rule last_in_set) simp
  have c: "chain f x as" and lb: "lane f ?p bs" using l by (simp_all add: lane_append)
  have p_notin: "?p \<notin> set (butlast (x # as))"
    using d by (intro last_notin_butlast) auto
  have "chain g x as = chain f x as"
  proof (rule chain_cong)
    fix y assume y: "y \<in> set (butlast (x # as))"
    then have "y \<in> set (x # as)" by (rule in_set_butlastD)
    with a y p_notin show "g y = f y" by (auto simp: g)
  qed
  with c have cg: "chain g x as" by simp
  have pa: "?p \<noteq> a" using a p_in by auto
  have gp: "g ?p = Some (Some a)" by (simp add: g)
  have bs_notin: "\<And>y. y \<in> set bs \<Longrightarrow> y \<noteq> ?p \<and> y \<noteq> a"
    using d a p_in by auto
  have "lane g a bs"
  proof (cases bs)
    case Nil
    with lb pa show ?thesis by (simp add: g)
  next
    case (Cons b bs')
    have "lane g b bs' = lane f b bs'"
      by (rule lane_cong) (use bs_notin Cons in \<open>auto simp: g\<close>)
    with lb Cons pa show ?thesis by (simp add: g)
  qed
  with cg gp show ?thesis by (simp add: lane_append)
qed


text \<open>Taking the node \<open>y\<close> out of a lane.\<close>

lemma lane_unlink:
  assumes l: "lane f x (as @ y # bs)"
    and d: "distinct (x # as @ y # bs)"
    and g: "\<And>z. z \<noteq> y \<Longrightarrow> g z = (if z = last (x # as) then f y else f z)"
  shows "lane g x (as @ bs)"
proof -
  let ?p = "last (x # as)"
  have p_in: "?p \<in> set (x # as)" by (rule last_in_set) simp
  have c: "chain f x as" and fp: "f ?p = Some (Some y)" and lb: "lane f y bs"
    using l by (simp_all add: lane_append)
  have p_notin: "?p \<notin> set (butlast (x # as))"
    using d by (intro last_notin_butlast) auto
  have py: "?p \<noteq> y" using d p_in by auto
  have "chain g x as = chain f x as"
  proof (rule chain_cong)
    fix z assume z: "z \<in> set (butlast (x # as))"
    then have "z \<in> set (x # as)" by (rule in_set_butlastD)
    with d have "z \<noteq> y" by auto
    with z p_notin show "g z = f z" by (auto simp: g)
  qed
  with c have cg: "chain g x as" by simp
  have bs_notin: "\<And>z. z \<in> set bs \<Longrightarrow> z \<noteq> ?p \<and> z \<noteq> y"
    using d p_in by auto
  have "lane g ?p bs"
  proof (cases bs)
    case Nil
    with lb py show ?thesis by (simp add: g)
  next
    case (Cons b bs')
    have "lane g b bs' = lane f b bs'"
      by (rule lane_cong) (use bs_notin Cons in \<open>auto simp: g\<close>)
    with lb Cons py show ?thesis by (simp add: g)
  qed
  with cg show ?thesis by (simp add: lane_append)
qed

subsection \<open>The key search on a lane\<close>

lemma deref_ptr_elem: "elem h y = Some v \<Longrightarrow> deref_ptr h y = Inr v"
  by (auto simp: elem_def deref_ptr_def split: option.splits)

lemma deref_ptr_Inr: "deref_ptr h y = Inr v \<longleftrightarrow> elem h y = Some v"
  by (auto simp: elem_def deref_ptr_def split: option.splits)

lemma pred_of_Nil [simp]: "pred_of h key x [] = x"
  by (simp add: pred_of_def)

lemma pred_of_Cons:
  "pred_of h key x (y # ys) = (if below h key y then pred_of h key y ys else x)"
  by (simp add: pred_of_def)

lemma search_while_lane:
  assumes "lane (next_at h j) x ys" and "list_all (\<lambda>y. elem h y \<noteq> None) ys"
  shows "\<exists>ws'. search_while h key j ws x = Some (Inr (ws', pred_of h key x ys))"
  using assms
proof (induction ys arbitrary: x ws)
  case Nil
  then obtain l where "read_link h x j = Inr l" "node l = None"
    by (auto simp: next_at_Some)
  then show ?case by (subst search_while.simps) simp
next
  case (Cons y ys)
  from Cons.prems obtain l where l: "read_link h x j = Inr l" "node l = Some y"
    by (auto simp: next_at_Some)
  from Cons.prems obtain v where v: "elem h y = Some v" by auto
  then have d: "deref_ptr h y = Inr v" by (rule deref_ptr_elem)
  show ?case
  proof (cases "v < key")
    case True
    from Cons.prems have "lane (next_at h j) y ys" "list_all (\<lambda>y. elem h y \<noteq> None) ys"
      by simp_all
    from Cons.IH[OF this, of "ws + width l"] obtain ws' where
      "search_while h key j (ws + width l) y = Some (Inr (ws', pred_of h key y ys))" ..
    with l d v True show ?thesis
      by (subst search_while.simps) (simp add: pred_of_Cons below_def)
  next
    case False
    with l d v show ?thesis
      by (subst search_while.simps) (simp add: pred_of_Cons below_def)
  qed
qed

lemma pred_of_cases:
  "pred_of h key x ys = x \<or> (pred_of h key x ys \<in> set ys \<and> below h key (pred_of h key x ys))"
proof (cases "takeWhile (below h key) ys = []")
  case True
  then show ?thesis by (simp add: pred_of_def)
next
  case False
  then have "last (takeWhile (below h key) ys) \<in> set (takeWhile (below h key) ys)"
    by (rule last_in_set)
  then have "last (takeWhile (below h key) ys) \<in> set ys \<and>
    below h key (last (takeWhile (below h key) ys))"
    by (auto dest: set_takeWhileD)
  with False show ?thesis by (simp add: pred_of_def)
qed

lemma sorted_keys_below:
  assumes "sorted_wrt (<) (keys h (pre @ y # suf))" and "below h key y" and "z \<in> set pre"
  shows "below h (key::'a::linorder) z"
proof -
  from assms(1,3) have "the (elem h z) < the (elem h y)"
    by (auto simp: keys_def sorted_wrt_append)
  with assms(2) show ?thesis by (simp add: below_def)
qed

lemma pred_of_suffix:
  assumes "sorted_wrt (<) (keys h (pre @ y # suf))" and "below h (key::'a::linorder) y"
  shows "pred_of h key x (pre @ y # suf) = pred_of h key y suf"
proof -
  have "\<And>z. z \<in> set pre \<Longrightarrow> below h key z"
    using assms by (rule sorted_keys_below)
  then have "takeWhile (below h key) (pre @ y # suf) = pre @ y # takeWhile (below h key) suf"
    using assms(2) by (simp add: takeWhile_append2)
  then show ?thesis by (simp add: pred_of_def)
qed

lemma lane_suffix: "lane f x (pre @ y # suf) \<Longrightarrow> lane f y suf"
  by (simp add: lane_append)

text \<open>From a node of the lane that lies below the key, the search ends where it ends from the head.\<close>

lemma search_while_from:
  assumes l: "lane (next_at h j) hp ys"
    and e: "list_all (\<lambda>y. elem h y \<noteq> None) ys"
    and s: "sorted_wrt (<) (keys h ys)"
    and x: "x = hp \<or> (x \<in> set ys \<and> below h (key::'a::linorder) x)"
  shows "\<exists>ws'. search_while h key j ws x = Some (Inr (ws', pred_of h key hp ys))"
proof (cases "x = hp")
  case True
  with search_while_lane[OF l e] show ?thesis by simp
next
  case False
  with x have xin: "x \<in> set ys" and b: "below h key x" by simp_all
  from xin obtain pre suf where ys: "ys = pre @ x # suf" by (auto dest: split_list)
  have "lane (next_at h j) x suf" using l unfolding ys by (rule lane_suffix)
  moreover have "list_all (\<lambda>y. elem h y \<noteq> None) suf" using e by (simp add: ys)
  ultimately obtain ws' where "search_while h key j ws x = Some (Inr (ws', pred_of h key x suf))"
    using search_while_lane by blast
  moreover have "pred_of h key hp ys = pred_of h key x suf"
    using s b unfolding ys by (rule pred_of_suffix)
  ultimately show ?thesis by simp
qed

lemma arr_set_Inr: "arr_set xs i v = Inr ys \<longleftrightarrow> i < length xs \<and> ys = xs[i := v]"
  by (auto simp: arr_set_def)

lemma arr_get_Inr: "arr_get xs i = Inr v \<longleftrightarrow> i < length xs \<and> v = xs ! i"
  by (auto simp: arr_get_def)

lemma nonnull_Inr: "nonnull p = Inr x \<longleftrightarrow> p = Some x"
  by (auto simp: nonnull_def split: option.splits)

text \<open>
  The search of \<^verbatim>\<open>insert\<close> on well-formed lanes returns, and \<^verbatim>\<open>update[j]\<close> is the
  last node of lane \<open>j\<close> below the key.
\<close>

lemma insert_for_lanes:
  assumes ok: "\<And>j. j < i \<Longrightarrow> lane (next_at h j) hp (L j) \<and>
                 list_all (\<lambda>y. elem h y \<noteq> None) (L j) \<and> sorted_wrt (<) (keys h (L j))"
    and sub: "\<And>j. Suc j < i \<Longrightarrow> set (L (Suc j)) \<subseteq> set (L j)"
    and start: "x0 = hp \<or> (x0 \<in> set (L (i - 1)) \<and> below h (key::'a::linorder) x0)"
    and len: "i \<le> length u0" "length uw0 = length u0"
  shows "\<exists>x u uw. insert_for h key i x0 u0 uw0 = Some (Inr (x, u, uw)) \<and>
           length u = length u0 \<and> length uw = length u0 \<and>
           (\<forall>j<i. u ! j = Some (pred_of h key hp (L j))) \<and>
           (\<forall>j\<ge>i. u ! j = u0 ! j) \<and>
           x = (if i = 0 then x0 else pred_of h key hp (L 0))"
  using assms
proof (induction i arbitrary: x0 u0 uw0)
  case 0
  then show ?case by simp
next
  case (Suc i)
  let ?x' = "pred_of h key hp (L i)"
  have oki: "lane (next_at h i) hp (L i)" "list_all (\<lambda>y. elem h y \<noteq> None) (L i)"
    "sorted_wrt (<) (keys h (L i))"
    using Suc.prems(1)[of i] by simp_all
  from Suc.prems(3) have "x0 = hp \<or> (x0 \<in> set (L i) \<and> below h key x0)" by simp
  from search_while_from[OF oki this, of 0] obtain ws' where
    sw: "search_while h key i 0 x0 = Some (Inr (ws', ?x'))" ..
  have a1: "arr_set u0 i (Some ?x') = Inr (u0[i := Some ?x'])"
    and a2: "arr_set uw0 i ws' = Inr (uw0[i := ws'])"
    using Suc.prems(4,5) by (simp_all add: arr_set_def)
  have start': "?x' = hp \<or> (?x' \<in> set (L (i - 1)) \<and> below h key ?x')"
  proof (cases "?x' = hp")
    case True
    then show ?thesis by simp
  next
    case False
    with pred_of_cases[of h key hp "L i"] have in_i: "?x' \<in> set (L i)" and b: "below h key ?x'"
      by simp_all
    have "?x' \<in> set (L (i - 1))"
    proof (cases i)
      case 0
      with in_i show ?thesis by simp
    next
      case (Suc k)
      with Suc.prems(2)[of k] in_i show ?thesis by auto
    qed
    with b show ?thesis by simp
  qed
  have "\<exists>x u uw. insert_for h key i ?x' (u0[i := Some ?x']) (uw0[i := ws']) = Some (Inr (x, u, uw)) \<and>
           length u = length (u0[i := Some ?x']) \<and> length uw = length (u0[i := Some ?x']) \<and>
           (\<forall>j<i. u ! j = Some (pred_of h key hp (L j))) \<and>
           (\<forall>j\<ge>i. u ! j = (u0[i := Some ?x']) ! j) \<and>
           x = (if i = 0 then ?x' else pred_of h key hp (L 0))"
  proof (rule Suc.IH)
    fix j assume "j < i"
    then show "lane (next_at h j) hp (L j) \<and>
                 list_all (\<lambda>y. elem h y \<noteq> None) (L j) \<and> sorted_wrt (<) (keys h (L j))"
      using Suc.prems(1)[of j] by simp
  next
    fix j assume "Suc j < i"
    then show "set (L (Suc j)) \<subseteq> set (L j)" using Suc.prems(2)[of j] by simp
  next
    show "?x' = hp \<or> (?x' \<in> set (L (i - 1)) \<and> below h key ?x')" by (rule start')
  next
    show "i \<le> length (u0[i := Some ?x'])" using Suc.prems(4) by simp
  next
    show "length (uw0[i := ws']) = length (u0[i := Some ?x'])" using Suc.prems(5) by simp
  qed
  then obtain x u uw where
    r: "insert_for h key i ?x' (u0[i := Some ?x']) (uw0[i := ws']) = Some (Inr (x, u, uw))"
    and lu: "length u = length u0" and luw: "length uw = length u0"
    and below_i: "\<forall>j<i. u ! j = Some (pred_of h key hp (L j))"
    and above_i: "\<forall>j\<ge>i. u ! j = (u0[i := Some ?x']) ! j"
    and x: "x = (if i = 0 then ?x' else pred_of h key hp (L 0))"
    by auto
  have ui: "u ! i = Some ?x'" using above_i Suc.prems(4) by simp
  have "\<forall>j<Suc i. u ! j = Some (pred_of h key hp (L j))"
    using below_i ui by (auto simp: less_Suc_eq)
  moreover have "\<forall>j\<ge>Suc i. u ! j = u0 ! j" using above_i by simp
  moreover have "x = pred_of h key hp (L 0)" using x by (cases i) simp_all
  moreover have "insert_for h key (Suc i) x0 u0 uw0 = Some (Inr (x, u, uw))"
    using sw a1 a2 r by simp
  ultimately show ?case using lu luw by simp
qed

lemma remove_for_insert_for:
  "length uw0 = length u0 \<Longrightarrow>
   remove_for h key i x0 u0 =
     (case insert_for h key i x0 u0 uw0 of
        None \<Rightarrow> None
      | Some (Inl e) \<Rightarrow> Some (Inl e)
      | Some (Inr (x, u, uw)) \<Rightarrow> Some (Inr (x, u)))"
proof (induction i arbitrary: x0 u0 uw0)
  case 0
  then show ?case by simp
next
  case (Suc i)
  show ?case
  proof (cases "search_while h key i 0 x0")
    case None
    then show ?thesis by simp
  next
    case (Some r)
    show ?thesis
    proof (cases r)
      case (Inl e)
      with Some show ?thesis by simp
    next
      case (Inr wx)
      obtain ws x' where wx: "wx = (ws, x')" by (cases wx)
      show ?thesis
      proof (cases "i < length u0")
        case True
        with Suc.prems have "length (uw0[i := ws]) = length (u0[i := Some x'])" by simp
        from Suc.IH[OF this, of x'] True Suc.prems Some Inr wx show ?thesis
          by (simp add: arr_set_def)
      next
        case False
        with Suc.prems Some Inr wx show ?thesis by (simp add: arr_set_def)
      qed
    qed
  qed
qed

subsection \<open>What the loops do to the links\<close>

lemma raise_for_effect:
  "raise_for h hp level i u = Inr (h', u') \<Longrightarrow>
   next_at h' = next_at h \<and> elem h' = elem h \<and> length u' = length u \<and>
   (\<forall>j. u' ! j = (if i \<le> j \<and> j < level then Some hp else u ! j))"
proof (induction h hp level i u rule: raise_for.induct)
  case (1 h hp level i u)
  show ?case
  proof (cases "i < level")
    case False
    with "1.prems" show ?thesis by (subst (asm) raise_for.simps) auto
  next
    case True
    with "1.prems" obtain h1 where
      il: "i < length u" and sw: "set_width h hp i 0 = Inr h1"
      and r: "raise_for h1 hp level (Suc i) (u[i := Some hp]) = Inr (h', u')"
      by (subst (asm) raise_for.simps) (auto simp: arr_set_def split: if_splits sum.splits)
    have a: "arr_set u i (Some hp) = Inr (u[i := Some hp])" using il by (simp add: arr_set_def)
    from "1.IH"[OF True a sw r] sw il True show ?thesis
      by (auto simp: next_at_set_width elem_set_width nth_list_update)
  qed
qed

lemma insert_widths_frame:
  "insert_widths h a ui u uw i = Inr h' \<Longrightarrow> next_at h' = next_at h \<and> elem h' = elem h"
  by (auto simp: insert_widths_def bindE_Inr next_at_set_width elem_set_width split: if_splits)

lemma insert_step_effect:
  assumes "insert_step h a u uw i = Inr h'"
  shows "\<exists>ui. i < length u \<and> u ! i = Some ui \<and> next_at h i ui \<noteq> None \<and> next_at h i a \<noteq> None \<and>
           elem h' = elem h \<and>
           (\<forall>j y. next_at h' j y =
              (if j = i \<and> y = ui then Some (Some a)
               else if j = i \<and> y = a then next_at h i ui
               else next_at h j y))"
proof -
  from assms obtain ui l h1 h2 where
    u: "i < length u" "u ! i = Some ui"
    and l: "read_link h ui i = Inr l"
    and h1: "set_node h a i (node l) = Inr h1"
    and h2: "set_node h1 ui i (Some a) = Inr h2"
    and h': "(if i > 0 then insert_widths h2 a ui u uw i else Inr h2) = Inr h'"
    by (auto simp: insert_step_def bindE_Inr arr_get_Inr nonnull_Inr)
  have f: "next_at h' = next_at h2" "elem h' = elem h2"
    using h' by (auto split: if_splits dest: insert_widths_frame)
  have nl: "next_at h i ui = Some (node l)" using l by (simp add: next_at_def)
  have "\<forall>j y. next_at h' j y =
              (if j = i \<and> y = ui then Some (Some a)
               else if j = i \<and> y = a then next_at h i ui
               else next_at h j y)"
    by (simp add: f next_at_set_node[OF h2] next_at_set_node[OF h1] nl)
  moreover have "elem h' = elem h"
    by (simp add: f elem_set_node[OF h2] elem_set_node[OF h1])
  moreover have "next_at h i a \<noteq> None" using h1 by (rule set_node_live)
  ultimately show ?thesis using u nl by simp
qed

lemma insert_loop_effect:
  "insert_loop h a u uw level i = Inr h' \<Longrightarrow>
   elem h' = elem h \<and>
   (\<forall>j. i \<le> j \<and> j < level \<longrightarrow> j < length u \<and> u ! j \<noteq> None) \<and>
   (\<forall>j y. next_at h' j y =
      (if i \<le> j \<and> j < level
       then (if y = the (u ! j) then Some (Some a)
             else if y = a then next_at h j (the (u ! j))
             else next_at h j y)
       else next_at h j y))"
proof (induction h a u uw level i rule: insert_loop.induct)
  case (1 h a u uw level i)
  show ?case
  proof (cases "i < level")
    case False
    with "1.prems" show ?thesis by (subst (asm) insert_loop.simps) auto
  next
    case True
    with "1.prems" obtain h1 where
      st: "insert_step h a u uw i = Inr h1"
      and r: "insert_loop h1 a u uw level (Suc i) = Inr h'"
      by (subst (asm) insert_loop.simps) (auto split: sum.splits)
    from insert_step_effect[OF st] obtain ui where
      u: "i < length u" "u ! i = Some ui"
      and e1: "elem h1 = elem h"
      and n1: "\<And>j y. next_at h1 j y =
              (if j = i \<and> y = ui then Some (Some a)
               else if j = i \<and> y = a then next_at h i ui
               else next_at h j y)"
      by auto
    from "1.IH"[OF True st r] have
      e2: "elem h' = elem h1"
      and b2: "\<forall>j. Suc i \<le> j \<and> j < level \<longrightarrow> j < length u \<and> u ! j \<noteq> None"
      and n2: "\<And>j y. next_at h' j y =
        (if Suc i \<le> j \<and> j < level
         then (if y = the (u ! j) then Some (Some a)
               else if y = a then next_at h1 j (the (u ! j))
               else next_at h1 j y)
         else next_at h1 j y)"
      by auto
    have "\<forall>j. i \<le> j \<and> j < level \<longrightarrow> j < length u \<and> u ! j \<noteq> None"
    proof (intro allI impI)
      fix j assume j: "i \<le> j \<and> j < level"
      show "j < length u \<and> u ! j \<noteq> None"
      proof (cases "j = i")
        case True
        with u show ?thesis by simp
      next
        case False
        with j b2 show ?thesis by simp
      qed
    qed
    moreover have "\<forall>j y. next_at h' j y =
      (if i \<le> j \<and> j < level
       then (if y = the (u ! j) then Some (Some a)
             else if y = a then next_at h j (the (u ! j))
             else next_at h j y)
       else next_at h j y)"
    proof (intro allI)
      fix j y
      show "next_at h' j y =
        (if i \<le> j \<and> j < level
         then (if y = the (u ! j) then Some (Some a)
               else if y = a then next_at h j (the (u ! j))
               else next_at h j y)
         else next_at h j y)"
      proof (cases "j = i")
        case True
        with u True \<open>i < level\<close> show ?thesis by (simp add: n2 n1)
      next
        case False
        then show ?thesis by (auto simp: n2 n1)
      qed
    qed
    ultimately show ?thesis using e1 e2 by simp
  qed
qed

lemma remove_step_effect:
  assumes "remove_step h x u i = Inr h'"
  shows "\<exists>ui. i < length u \<and> u ! i = Some ui \<and> elem h' = elem h \<and>
           (\<forall>j y. next_at h' j y =
              (if j = i \<and> next_at h i ui = Some (Some x)
               then (if y = x then Some None else if y = ui then next_at h i x else next_at h j y)
               else next_at h j y))"
proof -
  from assms obtain ui l where
    u: "i < length u" "u ! i = Some ui"
    and l: "read_link h ui i = Inr l"
    and rest: "(if node l \<noteq> Some x then set_width h ui i (width l - 1)
       else
         bindE (read_link h x i) (\<lambda>lx.
         bindE (set_node h ui i (node lx)) (\<lambda>h1.
         bindE (set_node h1 x i None) (\<lambda>h2.
         bindE (read_link h2 x i) (\<lambda>lx2.
           if width lx2 > 0
           then bindE (read_link h2 ui i) (\<lambda>lu. set_width h2 ui i (width lu + (width lx2 - 1)))
           else set_width h2 ui i 0))))) = Inr h'"
    by (auto simp: remove_step_def bindE_Inr arr_get_Inr nonnull_Inr)
  have nl: "next_at h i ui = Some (node l)" using l by (simp add: next_at_def)
  show ?thesis
  proof (cases "node l = Some x")
    case False
    with rest have "set_width h ui i (width l - 1) = Inr h'" by simp
    then have "next_at h' = next_at h" "elem h' = elem h"
      by (simp_all add: next_at_set_width elem_set_width)
    with u nl False show ?thesis by simp
  next
    case True
    with rest obtain lx h1 h2 where
      lx: "read_link h x i = Inr lx"
      and h1: "set_node h ui i (node lx) = Inr h1"
      and h2: "set_node h1 x i None = Inr h2"
      and w: "next_at h' = next_at h2 \<and> elem h' = elem h2"
      by (auto simp: bindE_Inr next_at_set_width elem_set_width split: if_splits)
    have nx: "next_at h i x = Some (node lx)" using lx by (simp add: next_at_def)
    have "\<forall>j y. next_at h' j y =
              (if j = i \<and> next_at h i ui = Some (Some x)
               then (if y = x then Some None else if y = ui then next_at h i x else next_at h j y)
               else next_at h j y)"
      using w True by (simp add: next_at_set_node[OF h2] next_at_set_node[OF h1] nl nx)
    moreover have "elem h' = elem h"
      using w by (simp add: elem_set_node[OF h2] elem_set_node[OF h1])
    ultimately show ?thesis using u by simp
  qed
qed

lemma remove_loop_effect:
  "remove_loop h x u level i = Inr h' \<Longrightarrow>
   elem h' = elem h \<and>
   (\<forall>j. i \<le> j \<and> j < level \<longrightarrow> j < length u \<and> u ! j \<noteq> None) \<and>
   (\<forall>j y. next_at h' j y =
      (if i \<le> j \<and> j < level \<and> next_at h j (the (u ! j)) = Some (Some x)
       then (if y = x then Some None
             else if y = the (u ! j) then next_at h j x
             else next_at h j y)
       else next_at h j y))"
proof (induction h x u level i rule: remove_loop.induct)
  case (1 h x u level i)
  show ?case
  proof (cases "i < level")
    case False
    with "1.prems" show ?thesis by (subst (asm) remove_loop.simps) auto
  next
    case True
    with "1.prems" obtain h1 where
      st: "remove_step h x u i = Inr h1"
      and r: "remove_loop h1 x u level (Suc i) = Inr h'"
      by (subst (asm) remove_loop.simps) (auto split: sum.splits)
    from remove_step_effect[OF st] obtain ui where
      u: "i < length u" "u ! i = Some ui"
      and e1: "elem h1 = elem h"
      and n1: "\<And>j y. next_at h1 j y =
              (if j = i \<and> next_at h i ui = Some (Some x)
               then (if y = x then Some None else if y = ui then next_at h i x else next_at h j y)
               else next_at h j y)"
      by auto
    from "1.IH"[OF True st r] have
      e2: "elem h' = elem h1"
      and b2: "\<forall>j. Suc i \<le> j \<and> j < level \<longrightarrow> j < length u \<and> u ! j \<noteq> None"
      and n2: "\<And>j y. next_at h' j y =
        (if Suc i \<le> j \<and> j < level \<and> next_at h1 j (the (u ! j)) = Some (Some x)
         then (if y = x then Some None
               else if y = the (u ! j) then next_at h1 j x
               else next_at h1 j y)
         else next_at h1 j y)"
      by auto
    have "\<forall>j. i \<le> j \<and> j < level \<longrightarrow> j < length u \<and> u ! j \<noteq> None"
    proof (intro allI impI)
      fix j assume j: "i \<le> j \<and> j < level"
      show "j < length u \<and> u ! j \<noteq> None"
      proof (cases "j = i")
        case True
        with u show ?thesis by simp
      next
        case False
        with j b2 show ?thesis by simp
      qed
    qed
    moreover have "\<forall>j y. next_at h' j y =
      (if i \<le> j \<and> j < level \<and> next_at h j (the (u ! j)) = Some (Some x)
       then (if y = x then Some None
             else if y = the (u ! j) then next_at h j x
             else next_at h j y)
       else next_at h j y)"
    proof (intro allI)
      fix j y
      show "next_at h' j y =
        (if i \<le> j \<and> j < level \<and> next_at h j (the (u ! j)) = Some (Some x)
         then (if y = x then Some None
               else if y = the (u ! j) then next_at h j x
               else next_at h j y)
         else next_at h j y)"
      proof (cases "j = i")
        case True
        with u True \<open>i < level\<close> show ?thesis by (simp add: n2 n1)
      next
        case False
        then show ?thesis by (auto simp: n2 n1)
      qed
    qed
    ultimately show ?thesis using e1 e2 by simp
  qed
qed

lemma lower_level_effect:
  "lower_level h hp l = Inr l' \<Longrightarrow>
   l' \<le> l \<and> (1 \<le> l \<longrightarrow> 1 \<le> l') \<and> (\<forall>j. l' \<le> j \<and> j < l \<longrightarrow> next_at h j hp = Some None)"
proof (induction h hp l rule: lower_level.induct)
  case (1 h hp l)
  show ?case
  proof (cases "l > 1")
    case False
    with "1.prems" show ?thesis by (subst (asm) lower_level.simps) auto
  next
    case True
    with "1.prems" obtain lk where lk: "read_link h hp (l - 1) = Inr lk"
      and r: "(if node lk = None then lower_level h hp (l - 1) else Inr l) = Inr l'"
      by (subst (asm) lower_level.simps) (auto split: sum.splits)
    show ?thesis
    proof (cases "node lk = None")
      case False
      with r show ?thesis by auto
    next
      case n: True
      with r have r': "lower_level h hp (l - 1) = Inr l'" by simp
      from "1.IH"[OF True lk n r'] True have
        a: "l' \<le> l - 1" "1 \<le> l'" "\<forall>j. l' \<le> j \<and> j < l - 1 \<longrightarrow> next_at h j hp = Some None"
        by auto
      have "next_at h (l - 1) hp = Some None" using lk n by (simp add: next_at_def)
      have "\<forall>j. l' \<le> j \<and> j < l \<longrightarrow> next_at h j hp = Some None"
      proof (intro allI impI)
        fix j assume j: "l' \<le> j \<and> j < l"
        show "next_at h j hp = Some None"
        proof (cases "j = l - 1")
          case True
          with \<open>next_at h (l - 1) hp = Some None\<close> show ?thesis by simp
        next
          case False
          with j have "l' \<le> j \<and> j < l - 1" by arith
          with a(3) show ?thesis by blast
        qed
      qed
      with a(1,2) show ?thesis by simp
    qed
  qed
qed

subsection \<open>RandomLevel\<close>

lemma RandomLevel_while_bounds:
  "level \<le> RandomLevel_while rnd p cap n level \<and>
   RandomLevel_while rnd p cap n level \<le> max level cap"
proof (induction rnd p cap n level rule: RandomLevel_while.induct)
  case (1 rnd p cap n level)
  show ?case
  proof (cases "rnd n < p \<and> level < cap")
    case True
    with "1.IH" show ?thesis by (subst (1 2) RandomLevel_while.simps) auto
  next
    case False
    then show ?thesis by (subst (1 2) RandomLevel_while.simps) auto
  qed
qed

lemma RandomLevel_bounds:
  "1 \<le> RandomLevel rnd s \<and> (0 < kMaxLevel_m s \<longrightarrow> RandomLevel rnd s \<le> max 1 (kMaxLevel_m s - 1))"
  using RandomLevel_while_bounds[of 1 rnd "p_m s" "size_t_pred (kMaxLevel_m s)" 0]
  by (auto simp: RandomLevel_def size_t_pred_def)

subsection \<open>Facts of well-formed lanes\<close>

lemma lanes_okD: "lanes_ok s L \<Longrightarrow> j < kMaxLevel_m s \<Longrightarrow> lane_ok s L j"
  by (simp add: lanes_ok_def list_all_iff)

lemma lanes_okI:
  "1 \<le> level_m s \<Longrightarrow> level_m s \<le> kMaxLevel_m s \<Longrightarrow> kMaxLevel_m s < 2 ^ 64 \<Longrightarrow>
   elem (heap s) (head_m s) = None \<Longrightarrow> (\<And>j. j < kMaxLevel_m s \<Longrightarrow> lane_ok s L j) \<Longrightarrow>
   lanes_ok s L"
  by (simp add: lanes_ok_def list_all_iff)

lemma sorted_keys_distinct:
  assumes "sorted_wrt (<) (keys h ys :: 'a::linorder list)"
  shows "distinct ys"
proof -
  have "distinct (keys h ys)" using assms by (simp add: strict_sorted_iff)
  then show ?thesis by (auto simp: keys_def distinct_map)
qed

lemma lane_ok_distinct:
  assumes "lane_ok s L j" and "elem (heap s) (head_m s) = None"
  shows "distinct (head_m s # L j)"
proof -
  have "distinct (L j)" using assms(1) by (auto simp: lane_ok_def intro: sorted_keys_distinct)
  moreover have "head_m s \<notin> set (L j)"
    using assms by (auto simp: lane_ok_def list_all_iff)
  ultimately show ?thesis by simp
qed

lemma lanes_ok_subset0:
  assumes "lanes_ok s L"
  shows "j < kMaxLevel_m s \<Longrightarrow> set (L j) \<subseteq> set (L 0)"
proof (induction j)
  case 0
  then show ?case by simp
next
  case (Suc j)
  then have "set (L (Suc j)) \<subseteq> set (L j)"
    using lanes_okD[OF assms, of "Suc j"] by (simp add: lane_ok_def)
  with Suc show ?case by auto
qed

text \<open>The link of the node where the search stops leads to the first node not below the key.\<close>

lemma next_at_pred_of:
  assumes "lane f x ys"
  shows "f (pred_of h key x ys) =
           (case dropWhile (below h key) ys of [] \<Rightarrow> Some None | z # zs \<Rightarrow> Some (Some z))"
proof -
  have "lane f x (takeWhile (below h key) ys @ dropWhile (below h key) ys)"
    using assms by simp
  then have l: "lane f (pred_of h key x ys) (dropWhile (below h key) ys)"
    unfolding pred_of_def lane_append by simp
  define ds where "ds = dropWhile (below h key) ys"
  from l have "lane f (pred_of h key x ys) ds" by (simp add: ds_def)
  then have "f (pred_of h key x ys) = (case ds of [] \<Rightarrow> Some None | z # zs \<Rightarrow> Some (Some z))"
    by (cases ds) simp_all
  then show ?thesis by (simp only: ds_def)
qed

lemma insert_for_lanes_ok:
  assumes ok: "lanes_ok s L" and n: "level_m s \<le> n"
  shows "\<exists>x u uw. insert_for (heap s) key (level_m s) (head_m s) (replicate n None) (replicate n 0)
              = Some (Inr (x, u, uw)) \<and>
           length u = n \<and> length uw = n \<and>
           (\<forall>j<level_m s. u ! j = Some (pred_of (heap s) key (head_m s) (L j))) \<and>
           (\<forall>j\<ge>level_m s. j < n \<longrightarrow> u ! j = None) \<and>
           x = pred_of (heap s) key (head_m s) (L 0)"
proof -
  have lv: "1 \<le> level_m s" "level_m s \<le> kMaxLevel_m s" using ok by (simp_all add: lanes_ok_def)
  have "\<exists>x u uw. insert_for (heap s) key (level_m s) (head_m s) (replicate n None) (replicate n 0)
              = Some (Inr (x, u, uw)) \<and>
           length u = length (replicate n (None::addr option)) \<and>
           length uw = length (replicate n (None::addr option)) \<and>
           (\<forall>j<level_m s. u ! j = Some (pred_of (heap s) key (head_m s) (L j))) \<and>
           (\<forall>j\<ge>level_m s. u ! j = (replicate n None) ! j) \<and>
           x = (if level_m s = 0 then head_m s else pred_of (heap s) key (head_m s) (L 0))"
  proof (rule insert_for_lanes)
    fix j assume "j < level_m s"
    with lv have "lane_ok s L j" by (intro lanes_okD[OF ok]) simp
    then show "lane (next_at (heap s) j) (head_m s) (L j) \<and>
      list_all (\<lambda>y. elem (heap s) y \<noteq> None) (L j) \<and> sorted_wrt (<) (keys (heap s) (L j))"
      by (simp add: lane_ok_def)
  next
    fix j assume "Suc j < level_m s"
    with lv have "lane_ok s L (Suc j)" by (intro lanes_okD[OF ok]) simp
    then show "set (L (Suc j)) \<subseteq> set (L j)" by (simp add: lane_ok_def)
  next
    show "head_m s = head_m s \<or> (head_m s \<in> set (L (level_m s - 1)) \<and> below (heap s) key (head_m s))"
      by simp
  next
    show "level_m s \<le> length (replicate n (None::addr option))" using n by simp
  next
    show "length (replicate n (0::size_t)) = length (replicate n (None::addr option))" by simp
  qed
  then show ?thesis using lv by auto
qed

lemma keys_sorted_dropWhile:
  "sorted_wrt (<) (keys h ys) \<Longrightarrow> sorted_wrt (<) (keys h (dropWhile P ys))"
  by (simp add: keys_def sorted_wrt_map)

lemma keys_sorted_takeWhile:
  "sorted_wrt (<) (keys h ys) \<Longrightarrow> sorted_wrt (<) (keys h (takeWhile P ys))"
  by (simp add: keys_def sorted_wrt_map)

lemma keys_sorted_filter:
  "sorted_wrt (<) (keys h ys) \<Longrightarrow> sorted_wrt (<) (keys h (filter P ys))"
  by (simp add: keys_def sorted_wrt_map sorted_wrt_filter)

lemma keys_cong: "(\<And>y. y \<in> set ys \<Longrightarrow> elem h' y = elem h y) \<Longrightarrow> keys h' ys = keys h ys"
  by (simp add: keys_def)

text \<open>
  When the link after the search position does not lead to the key, every element of
  the lane that is not below the key is above it.
\<close>

lemma not_below_above:
  assumes l0: "lane f hp ys"
    and srt: "sorted_wrt (<) (keys h ys)"
    and nx: "f (pred_of h key hp ys) = Some t"
    and t: "\<And>y0. t = Some y0 \<Longrightarrow> the (elem h y0) \<noteq> key"
    and y: "y \<in> set ys" "\<not> below h key y"
  shows "(key::'a::linorder) < the (elem h y)"
proof -
  define ds where "ds = dropWhile (below h key) ys"
  have "y \<notin> set (takeWhile (below h key) ys)" using y(2) by (auto dest: set_takeWhileD)
  moreover have "set ys = set (takeWhile (below h key) ys) \<union> set ds"
    unfolding ds_def by (metis set_append takeWhile_dropWhile_id)
  ultimately have yin: "y \<in> set ds" using y(1) by auto
  then obtain y0 rest where ds: "ds = y0 # rest" by (cases ds) auto
  have "f (pred_of h key hp ys) = (case ds of [] \<Rightarrow> Some None | z # zs \<Rightarrow> Some (Some z))"
    unfolding ds_def using l0 by (rule next_at_pred_of)
  with nx ds have "t = Some y0" by simp
  then have ne: "the (elem h y0) \<noteq> key" by (rule t)
  have "\<not> below h key y0"
    using ds unfolding ds_def by (simp add: dropWhile_eq_Cons_conv)
  with ne have y0: "key < the (elem h y0)" by (simp add: below_def)
  have "sorted_wrt (<) (keys h ds)" unfolding ds_def using srt by (rule keys_sorted_dropWhile)
  then have "\<forall>z\<in>set rest. the (elem h y0) < the (elem h z)"
    by (simp add: ds keys_def)
  with yin y0 show ?thesis by (auto simp: ds)
qed

lemma insert_dup_None:
  assumes "insert_dup h key x = Inr None"
  shows "\<exists>t. next_at h 0 x = Some t \<and> (\<forall>y0. t = Some y0 \<longrightarrow> the (elem h y0) \<noteq> key)"
proof -
  from assms obtain l where l: "read_link h x 0 = Inr l"
    and c: "(case node l of None \<Rightarrow> Inr None
             | Some y \<Rightarrow> bindE (deref_ptr h y) (\<lambda>v. Inr (if v = key then Some y else None))) = Inr None"
    by (auto simp: insert_dup_def bindE_Inr)
  have "next_at h 0 x = Some (node l)" using l by (simp add: next_at_def)
  moreover have "\<forall>y0. node l = Some y0 \<longrightarrow> the (elem h y0) \<noteq> key"
    using c by (auto simp: bindE_Inr deref_ptr_Inr split: option.splits if_splits)
  ultimately show ?thesis by blast
qed

lemma insert_sl_lanes_ok:
  assumes ok: "lanes_ok s L" and fresh: "heap s a = None"
    and ins: "insert_sl s key rnd a = Some (Inr (r, s'))"
  shows "\<exists>L'. lanes_ok s' L'"
proof -
  let ?h = "heap s"
  let ?hp = "head_m s"
  let ?K = "kMaxLevel_m s"
  let ?lv = "level_m s"
  let ?level = "RandomLevel rnd s"
  define P where "P = below ?h key"
  define p where "p = (\<lambda>j. pred_of ?h key ?hp (L j))"
  have lvK: "1 \<le> ?lv" "?lv \<le> ?K" "?K < 2 ^ 64" and ehp: "elem ?h ?hp = None"
    using ok by (simp_all add: lanes_ok_def)
  have lok: "\<And>j. j < ?K \<Longrightarrow> lane_ok s L j"
    using ok by (simp add: lanes_okD)
  have lane: "\<And>j. j < ?K \<Longrightarrow> lane (next_at ?h j) ?hp (L j)"
    and els: "\<And>j y. j < ?K \<Longrightarrow> y \<in> set (L j) \<Longrightarrow> elem ?h y \<noteq> None"
    and srt: "\<And>j. j < ?K \<Longrightarrow> sorted_wrt (<) (keys ?h (L j))"
    and emp: "\<And>j. j < ?K \<Longrightarrow> ?lv \<le> j \<Longrightarrow> L j = []"
    and sub: "\<And>j. j < ?K \<Longrightarrow> 0 < j \<Longrightarrow> set (L j) \<subseteq> set (L (j - 1))"
    using lok by (auto simp: lane_ok_def list_all_iff)
  have dist: "\<And>j. j < ?K \<Longrightarrow> distinct (?hp # L j)"
    using lane_ok_distinct[OF lok] ehp by simp
  have level_b: "1 \<le> ?level" "?level \<le> ?K"
    using RandomLevel_bounds[of rnd s] lvK by auto
  from insert_for_lanes_ok[OF ok, of ?K key] lvK obtain x u uw where
    sf: "insert_for ?h key ?lv ?hp (replicate ?K None) (replicate ?K 0) = Some (Inr (x, u, uw))"
    and lu: "length u = ?K"
    and ub: "\<forall>j<?lv. u ! j = Some (p j)"
    and x: "x = p 0"
    by (auto simp: p_def)
  from ins obtain h1 u1 level1 dup where
    ra: "(if ?level > ?lv
          then bindE (raise_for ?h ?hp ?level ?lv u) (\<lambda>(h, u). Inr (h, u, ?level))
          else Inr (?h, u, ?lv)) = Inr (h1, u1, level1)"
    and dp: "insert_dup h1 key x = Inr dup"
    and fin: "(case dup of
         Some y \<Rightarrow> Some (Inr (y, s\<lparr>level_m := level1, heap := h1\<rparr>))
       | None \<Rightarrow>
           liftE (insert_loop (h1(a \<mapsto> CreateNode (Some key) ?level)) a u1 uw ?level 0)
             (\<lambda>h3. Some (Inr (a, s\<lparr>level_m := level1, width_m := width_m s + 1, heap := h3\<rparr>))))
        = Some (Inr (r, s'))"
    unfolding insert_sl_def
    using sf by (auto simp: bindR_Inr liftE_Inr Let_def)
  have r1: "next_at h1 = next_at ?h \<and> elem h1 = elem ?h \<and> level1 = max ?lv ?level \<and>
            (\<forall>j<level1. u1 ! j = Some (p j))"
  proof (cases "?level > ?lv")
    case False
    with ra ub show ?thesis by (auto simp: max_def)
  next
    case True
    with ra have rf: "raise_for ?h ?hp ?level ?lv u = Inr (h1, u1)" and l1: "level1 = ?level"
      by (auto simp: bindE_Inr)
    from raise_for_effect[OF rf] have
      e: "next_at h1 = next_at ?h" "elem h1 = elem ?h"
      and u1: "\<And>j. u1 ! j = (if ?lv \<le> j \<and> j < ?level then Some ?hp else u ! j)"
      by auto
    have "\<forall>j<level1. u1 ! j = Some (p j)"
    proof (intro allI impI)
      fix j assume j: "j < level1"
      show "u1 ! j = Some (p j)"
      proof (cases "j < ?lv")
        case True
        with ub show ?thesis by (simp add: u1)
      next
        case False
        with j l1 level_b have "L j = []" by (intro emp) auto
        with False j l1 show ?thesis by (simp add: u1 p_def)
      qed
    qed
    with e l1 True show ?thesis by (simp add: max_def)
  qed
  then have n1: "next_at h1 = next_at ?h" and e1: "elem h1 = elem ?h"
    and l1: "level1 = max ?lv ?level" and u1: "\<And>j. j < level1 \<Longrightarrow> u1 ! j = Some (p j)"
    by auto
  have keys1: "\<And>ys. keys h1 ys = keys ?h ys" by (simp add: keys_def e1)
  show ?thesis
  proof (cases dup)
    case (Some y)
    with fin have s': "s' = s\<lparr>level_m := level1, heap := h1\<rparr>" by simp
    have "lanes_ok s' L"
    proof (rule lanes_okI)
      show "1 \<le> level_m s'" "level_m s' \<le> kMaxLevel_m s'" "kMaxLevel_m s' < 2 ^ 64"
        using lvK level_b by (simp_all add: s' l1)
      show "elem (heap s') (head_m s') = None" using ehp by (simp add: s' e1)
    next
      fix j assume "j < kMaxLevel_m s'"
      then have j: "j < ?K" by (simp add: s')
      from lok[OF j] show "lane_ok s' L j"
        by (auto simp: lane_ok_def s' n1 e1 keys1 l1)
    qed
    then show ?thesis by blast
  next
    case None
    define h2 where "h2 = h1(a \<mapsto> CreateNode (Some key) ?level)"
    from fin None obtain h3 where
      lp: "insert_loop h2 a u1 uw ?level 0 = Inr h3"
      and s': "s' = s\<lparr>level_m := level1, width_m := width_m s + 1, heap := h3\<rparr>"
      by (auto simp: liftE_Inr h2_def)
    have n2: "\<And>j y. next_at h2 j y =
        (if y = a then (if j < ?level then Some None else None) else next_at ?h j y)"
      by (simp add: h2_def next_at_CreateNode n1)
    have e2: "elem h2 = (elem ?h)(a := Some key)" by (simp add: h2_def elem_CreateNode e1)
    from insert_loop_effect[OF lp] have
      e3: "elem h3 = elem h2"
      and n3: "\<And>j y. next_at h3 j y =
        (if j < ?level
         then (if y = the (u1 ! j) then Some (Some a)
               else if y = a then next_at h2 j (the (u1 ! j))
               else next_at h2 j y)
         else next_at h2 j y)"
      by auto
    have adead: "\<And>j. next_at ?h j a = None" "elem ?h a = None"
      using fresh by (simp_all add: next_at_None_dead elem_None_dead)
    have live: "\<And>j y. j < ?K \<Longrightarrow> y \<in> set (?hp # L j) \<Longrightarrow> y \<noteq> a"
    proof -
      fix j y assume "j < ?K" "y \<in> set (?hp # L j)"
      then have "next_at ?h j y \<noteq> None" using lane_live[OF lane] by blast
      with adead show "y \<noteq> a" by auto
    qed
    have pin: "\<And>j. j < ?K \<Longrightarrow> p j \<in> set (?hp # L j)"
      using pred_of_cases[of ?h key ?hp] by (auto simp: p_def)
    have pa: "\<And>j. j < ?K \<Longrightarrow> p j \<noteq> a" using live pin by blast
    have n3a: "\<And>j y. j < ?level \<Longrightarrow> next_at h3 j y =
        (if y = last (?hp # takeWhile P (L j)) then Some (Some a)
         else if y = a then next_at ?h j (last (?hp # takeWhile P (L j)))
         else next_at ?h j y)"
    proof -
      fix j y assume j: "j < ?level"
      then have "j < level1" "j < ?K" using l1 level_b by auto
      then have "the (u1 ! j) = p j" "p j \<noteq> a" using u1 pa by simp_all
      moreover have "p j = last (?hp # takeWhile P (L j))" by (simp add: p_def pred_of_def P_def)
      ultimately show "next_at h3 j y =
        (if y = last (?hp # takeWhile P (L j)) then Some (Some a)
         else if y = a then next_at ?h j (last (?hp # takeWhile P (L j)))
         else next_at ?h j y)"
        using j by (simp add: n3 n2)
    qed
    have n3b: "\<And>j y. \<not> j < ?level \<Longrightarrow> y \<noteq> a \<Longrightarrow> next_at h3 j y = next_at ?h j y"
      by (simp add: n3 n2)
    have e3': "\<And>y. y \<noteq> a \<Longrightarrow> elem h3 y = elem ?h y" and e3a: "elem h3 a = Some key"
      by (simp_all add: e3 e2)
    define L' where "L' = (\<lambda>j. if j < ?level then takeWhile P (L j) @ a # dropWhile P (L j) else L j)"
    have setL': "\<And>j. set (L' j) = (if j < ?level then insert a (set (L j)) else set (L j))"
    proof -
      fix j
      have "set (takeWhile P (L j)) \<union> set (dropWhile P (L j)) = set (L j)"
        by (metis set_append takeWhile_dropWhile_id)
      then show "set (L' j) = (if j < ?level then insert a (set (L j)) else set (L j))"
        by (auto simp: L'_def)
    qed
    from insert_dup_None[OF dp[unfolded None]] obtain t where
      t: "next_at ?h 0 x = Some t" "\<And>y0. t = Some y0 \<Longrightarrow> the (elem ?h y0) \<noteq> key"
      by (auto simp: n1 e1)
    have above: "\<And>j y. j < ?K \<Longrightarrow> y \<in> set (L j) \<Longrightarrow> \<not> P y \<Longrightarrow> key < the (elem ?h y)"
    proof -
      fix j y assume j: "j < ?K" and y: "y \<in> set (L j)" "\<not> P y"
      have K0: "0 < ?K" using lvK by simp
      from lanes_ok_subset0[OF ok, of j] j y have y0: "y \<in> set (L 0)" by auto
      show "key < the (elem ?h y)"
        by (rule not_below_above[OF lane[OF K0] srt[OF K0] t(1)[unfolded x p_def] t(2) y0 y(2)[unfolded P_def]])
    qed
    have "lanes_ok s' L'"
    proof (rule lanes_okI)
      show "1 \<le> level_m s'" "level_m s' \<le> kMaxLevel_m s'" "kMaxLevel_m s' < 2 ^ 64"
        using lvK level_b by (simp_all add: s' l1)
      show "elem (heap s') (head_m s') = None"
        using ehp live[of 0 ?hp] lvK by (simp add: s' e3')
    next
      fix j assume "j < kMaxLevel_m s'"
      then have j: "j < ?K" by (simp add: s')
      have 1: "lane (next_at h3 j) ?hp (L' j)"
      proof (cases "j < ?level")
        case True
        have "lane (next_at h3 j) ?hp (takeWhile P (L j) @ a # dropWhile P (L j))"
        proof (rule lane_splice[where f = "next_at ?h j"])
          show "lane (next_at ?h j) ?hp (takeWhile P (L j) @ dropWhile P (L j))"
            using lane[OF j] by simp
          show "distinct (?hp # takeWhile P (L j) @ dropWhile P (L j))" using dist[OF j] by simp
          show "a \<notin> set (?hp # takeWhile P (L j) @ dropWhile P (L j))"
            using live[OF j] by (simp only: takeWhile_dropWhile_id) blast
        next
          fix y
          show "next_at h3 j y =
            (if y = last (?hp # takeWhile P (L j)) then Some (Some a)
             else if y = a then next_at ?h j (last (?hp # takeWhile P (L j)))
             else next_at ?h j y)"
            using True by (rule n3a)
        qed
        with True show ?thesis by (simp add: L'_def)
      next
        case False
        have "lane (next_at h3 j) ?hp (L j) = lane (next_at ?h j) ?hp (L j)"
          by (rule lane_cong) (use live[OF j] n3b[OF False] in blast)
        with lane[OF j] False show ?thesis by (simp add: L'_def)
      qed
      have 2: "list_all (\<lambda>y. elem h3 y \<noteq> None) (L' j)"
      proof -
        have "\<And>y. y \<in> set (L j) \<Longrightarrow> elem h3 y \<noteq> None"
        proof -
          fix y assume y: "y \<in> set (L j)"
          then have "y \<noteq> a" using live[OF j] by auto
          with els[OF j y] show "elem h3 y \<noteq> None" by (simp add: e3')
        qed
        then show ?thesis unfolding list_all_iff setL' using e3a by auto
      qed
      have 3: "sorted_wrt (<) (keys h3 (L' j))"
      proof (cases "j < ?level")
        case False
        have "keys h3 (L j) = keys ?h (L j)"
          by (rule keys_cong) (use live[OF j] e3' in auto)
        with srt[OF j] False show ?thesis by (simp add: L'_def)
      next
        case True
        have kt: "keys h3 (takeWhile P (L j)) = keys ?h (takeWhile P (L j))"
          by (rule keys_cong) (use live[OF j] e3' in \<open>auto dest: set_takeWhileD\<close>)
        have kd: "keys h3 (dropWhile P (L j)) = keys ?h (dropWhile P (L j))"
          by (rule keys_cong) (use live[OF j] e3' in \<open>auto dest: set_dropWhileD\<close>)
        have "keys h3 (L' j) = keys ?h (takeWhile P (L j)) @ key # keys ?h (dropWhile P (L j))"
          using True kt kd e3a by (simp add: L'_def keys_def)
        moreover have "sorted_wrt (<) (keys ?h (takeWhile P (L j)) @ key # keys ?h (dropWhile P (L j)))"
        proof -
          have a: "sorted_wrt (<) (keys ?h (takeWhile P (L j)))"
            using srt[OF j] by (rule keys_sorted_takeWhile)
          have b: "sorted_wrt (<) (keys ?h (dropWhile P (L j)))"
            using srt[OF j] by (rule keys_sorted_dropWhile)
          have c: "\<forall>v\<in>set (keys ?h (takeWhile P (L j))). v < key"
            by (auto simp: keys_def P_def below_def dest: set_takeWhileD)
          have d: "\<forall>v\<in>set (keys ?h (dropWhile P (L j))). key < v"
          proof
            fix v assume "v \<in> set (keys ?h (dropWhile P (L j)))"
            then obtain y where y: "y \<in> set (dropWhile P (L j))" "v = the (elem ?h y)"
              by (auto simp: keys_def)
            from y(1) have yin: "y \<in> set (L j)" by (rule set_dropWhileD)
            have "\<not> P y"
            proof
              assume Py: "P y"
              have "the (elem ?h y) < key" using Py by (simp add: P_def below_def)
              obtain y0 rest where ds: "dropWhile P (L j) = y0 # rest"
                using y(1) by (cases "dropWhile P (L j)") auto
              then have ny0: "\<not> P y0" by (simp add: dropWhile_eq_Cons_conv)
              have "sorted_wrt (<) (keys ?h (y0 # rest))" using b by (simp add: ds)
              then have "\<forall>z\<in>set rest. the (elem ?h y0) < the (elem ?h z)" by (simp add: keys_def)
              with y(1) ds have "y = y0 \<or> the (elem ?h y0) < the (elem ?h y)" by auto
              with ny0 Py show False by (auto simp: P_def below_def)
            qed
            with above[OF j yin] y(2) show "key < v" by simp
          qed
          from c d have "\<forall>v\<in>set (keys ?h (takeWhile P (L j))).
                 \<forall>w\<in>set (keys ?h (dropWhile P (L j))). v < w"
            by (meson less_trans)
          with a b c d show ?thesis
            by (simp add: sorted_wrt_append)
        qed
        ultimately show ?thesis by simp
      qed
      have 4: "level1 \<le> j \<longrightarrow> L' j = []"
        using emp[OF j] by (auto simp: L'_def l1)
      have 5: "0 < j \<longrightarrow> set (L' j) \<subseteq> set (L' (j - 1))"
        using sub[OF j] by (auto simp: setL')
      from 1 2 3 4 5 show "lane_ok s' L' j"
        by (simp add: lane_ok_def s')
    qed
    then show ?thesis by blast
  qed
qed

lemma remove_sl_lanes_ok:
  assumes ok: "lanes_ok s L" and rem: "remove_sl s key = Some (Inr (r, s'))"
  shows "\<exists>L'. lanes_ok s' L'"
proof -
  let ?h = "heap s"
  let ?hp = "head_m s"
  let ?K = "kMaxLevel_m s"
  let ?lv = "level_m s"
  define P where "P = below ?h key"
  define p where "p = (\<lambda>j. pred_of ?h key ?hp (L j))"
  have lvK: "1 \<le> ?lv" "?lv \<le> ?K" "?K < 2 ^ 64" and ehp: "elem ?h ?hp = None"
    using ok by (simp_all add: lanes_ok_def)
  have lok: "\<And>j. j < ?K \<Longrightarrow> lane_ok s L j"
    using ok by (simp add: lanes_okD)
  have lane: "\<And>j. j < ?K \<Longrightarrow> lane (next_at ?h j) ?hp (L j)"
    and els: "\<And>j y. j < ?K \<Longrightarrow> y \<in> set (L j) \<Longrightarrow> elem ?h y \<noteq> None"
    and srt: "\<And>j. j < ?K \<Longrightarrow> sorted_wrt (<) (keys ?h (L j))"
    and emp: "\<And>j. j < ?K \<Longrightarrow> ?lv \<le> j \<Longrightarrow> L j = []"
    and sub: "\<And>j. j < ?K \<Longrightarrow> 0 < j \<Longrightarrow> set (L j) \<subseteq> set (L (j - 1))"
    using lok by (auto simp: lane_ok_def list_all_iff)
  have dist: "\<And>j. j < ?K \<Longrightarrow> distinct (?hp # L j)"
    using lane_ok_distinct[OF lok] ehp by simp
  from insert_for_lanes_ok[OF ok, of ?lv key] obtain x0 u uw where
    sf: "insert_for ?h key ?lv ?hp (replicate ?lv None) (replicate ?lv 0) = Some (Inr (x0, u, uw))"
    and ub: "\<forall>j<?lv. u ! j = Some (p j)"
    and x0: "x0 = p 0"
    by (auto simp: p_def)
  have rf: "remove_for ?h key ?lv ?hp (replicate ?lv None) = Some (Inr (x0, u))"
    using remove_for_insert_for[of "replicate ?lv 0" "replicate ?lv None" ?h key ?lv ?hp] sf
    by simp
  from rem obtain l x v where
    l: "read_link ?h x0 0 = Inr l" and nl: "node l = Some x"
    and v: "deref_ptr ?h x = Inr v"
    and fin: "(if \<not> (v = key) then Some (Inr (None, s))
       else
         liftE (remove_loop ?h x u ?lv 0) (\<lambda>h1.
         liftE (read_ptr h1 x) (\<lambda>old_data.
         liftE (lower_level (h1(x := None)) ?hp ?lv) (\<lambda>level'.
           Some (Inr (old_data, s\<lparr>level_m := level', heap := h1(x := None)\<rparr>)))))) = Some (Inr (r, s'))"
    unfolding remove_sl_def using rf by (auto simp: bindR_Inr liftE_Inr nonnull_Inr)
  show ?thesis
  proof (cases "v = key")
    case False
    with fin have "s' = s" by simp
    with ok show ?thesis by blast
  next
    case True
    define h2 where "h2 = (\<lambda>h1::'a heap. h1(x := None))"
    from fin True obtain h1 level' where
      lp: "remove_loop ?h x u ?lv 0 = Inr h1"
      and ll: "lower_level (h1(x := None)) ?hp ?lv = Inr level'"
      and s': "s' = s\<lparr>level_m := level', heap := h1(x := None)\<rparr>"
      by (auto simp: liftE_Inr)
    have ex: "elem ?h x = Some key" using v True by (simp add: deref_ptr_Inr)
    have nPx: "\<not> P x" using ex by (simp add: P_def below_def)
    have xhp: "x \<noteq> ?hp" using ex ehp by auto
    from remove_loop_effect[OF lp] have
      e1: "elem h1 = elem ?h"
      and n1: "\<And>j y. next_at h1 j y =
        (if j < ?lv \<and> next_at ?h j (the (u ! j)) = Some (Some x)
         then (if y = x then Some None
               else if y = the (u ! j) then next_at ?h j x
               else next_at ?h j y)
         else next_at ?h j y)"
      by auto
    have n2: "\<And>j y. y \<noteq> x \<Longrightarrow> next_at (h1(x := None)) j y = next_at h1 j y"
      by (simp add: next_at_delete)
    have e2: "\<And>y. y \<noteq> x \<Longrightarrow> elem (h1(x := None)) y = elem ?h y"
      by (simp add: elem_delete e1)
    from lower_level_effect[OF ll] lvK have
      lev: "level' \<le> ?lv" "1 \<le> level'"
      and top: "\<And>j. level' \<le> j \<Longrightarrow> j < ?lv \<Longrightarrow> next_at (h1(x := None)) j ?hp = Some None"
      by auto
    define L' where "L' = (\<lambda>j. filter (\<lambda>y. y \<noteq> x) (L j))"
    have "lanes_ok s' L'"
    proof (rule lanes_okI)
      show "1 \<le> level_m s'" "level_m s' \<le> kMaxLevel_m s'" "kMaxLevel_m s' < 2 ^ 64"
        using lvK lev by (simp_all add: s')
      show "elem (heap s') (head_m s') = None"
        using ehp xhp by (simp add: s' e2)
    next
      fix j assume "j < kMaxLevel_m s'"
      then have j: "j < ?K" by (simp add: s')
      have 1: "lane (next_at (h1(x := None)) j) ?hp (L' j)"
      proof (cases "x \<in> set (L j)")
        case True
        then obtain pre suf where Lj: "L j = pre @ x # suf" by (auto dest: split_list)
        have d: "distinct (?hp # pre @ x # suf)" using dist[OF j] by (simp add: Lj)
        then have "x \<notin> set pre" "x \<notin> set suf" by auto
        then have "filter (\<lambda>y. y \<noteq> x) pre = pre" "filter (\<lambda>y. y \<noteq> x) suf = suf"
          by (simp_all add: filter_id_conv) blast+
        then have L'j: "L' j = pre @ suf" by (simp add: L'_def Lj)
        have jl: "j < ?lv" using emp[OF j] Lj by (cases "?lv \<le> j") auto
        have "\<And>z. z \<in> set pre \<Longrightarrow> P z"
        proof -
          fix z assume "z \<in> set pre"
          with srt[OF j] have "the (elem ?h z) < the (elem ?h x)"
            by (auto simp: Lj keys_def sorted_wrt_append)
          with ex show "P z" by (simp add: P_def below_def)
        qed
        then have "takeWhile P (L j) = pre" using nPx by (simp add: Lj)
        then have pj: "p j = last (?hp # pre)" by (simp add: p_def pred_of_def P_def)
        have "lane (next_at ?h j) ?hp (pre @ x # suf)" using lane[OF j] by (simp add: Lj)
        then have npx: "next_at ?h j (last (?hp # pre)) = Some (Some x)"
          by (simp add: lane_append)
        have uj: "the (u ! j) = last (?hp # pre)" using ub jl pj by simp
        have "lane (next_at (h1(x := None)) j) ?hp (pre @ suf)"
        proof (rule lane_unlink[where f = "next_at ?h j" and y = x])
          show "lane (next_at ?h j) ?hp (pre @ x # suf)" using lane[OF j] by (simp add: Lj)
          show "distinct (?hp # pre @ x # suf)" by (rule d)
        next
          fix z assume z: "z \<noteq> x"
          show "next_at (h1(x := None)) j z =
            (if z = last (?hp # pre) then next_at ?h j x else next_at ?h j z)"
            using z jl npx by (simp add: n2 n1 uj)
        qed
        then show ?thesis by (simp add: L'j)
      next
        case False
        then have L'j: "L' j = L j" by (auto simp: L'_def filter_id_conv)
        have same: "\<And>y. next_at h1 j y = next_at ?h j y"
        proof (cases "j < ?lv")
          case jl: True
          have "next_at ?h j (p j) =
            (case dropWhile (below ?h key) (L j) of [] \<Rightarrow> Some None | z # zs \<Rightarrow> Some (Some z))"
            unfolding p_def using lane[OF j] by (rule next_at_pred_of)
          moreover have "\<And>z zs. dropWhile (below ?h key) (L j) = z # zs \<Longrightarrow> z \<noteq> x"
          proof -
            fix z zs assume "dropWhile (below ?h key) (L j) = z # zs"
            then have "z \<in> set (dropWhile (below ?h key) (L j))" by simp
            then have "z \<in> set (L j)" by (rule set_dropWhileD)
            with False show "z \<noteq> x" by auto
          qed
          ultimately have "next_at ?h j (p j) \<noteq> Some (Some x)"
            by (auto split: list.splits)
          moreover have "the (u ! j) = p j" using ub jl by simp
          ultimately show "\<And>y. next_at h1 j y = next_at ?h j y" by (simp add: n1)
        next
          case False
          then show "\<And>y. next_at h1 j y = next_at ?h j y" by (simp add: n1)
        qed
        have "lane (next_at (h1(x := None)) j) ?hp (L j) = lane (next_at ?h j) ?hp (L j)"
        proof (rule lane_cong)
          fix y assume "y \<in> set (?hp # L j)"
          with False xhp have "y \<noteq> x" by auto
          then show "next_at (h1(x := None)) j y = next_at ?h j y" by (simp add: n2 same)
        qed
        with lane[OF j] show ?thesis by (simp add: L'j)
      qed
      have 2: "list_all (\<lambda>y. elem (h1(x := None)) y \<noteq> None) (L' j)"
        unfolding list_all_iff L'_def using els[OF j] by (auto simp: e2)
      have 3: "sorted_wrt (<) (keys (h1(x := None)) (L' j))"
      proof -
        have "keys (h1(x := None)) (L' j) = keys ?h (L' j)"
          by (rule keys_cong) (auto simp: L'_def e2)
        moreover have "sorted_wrt (<) (keys ?h (L' j))"
          unfolding L'_def using srt[OF j] by (rule keys_sorted_filter)
        ultimately show ?thesis by simp
      qed
      have 4: "level' \<le> j \<longrightarrow> L' j = []"
      proof
        assume lj: "level' \<le> j"
        show "L' j = []"
        proof (cases "?lv \<le> j")
          case True
          with emp[OF j] show ?thesis by (simp add: L'_def)
        next
          case False
          with lj have "next_at (h1(x := None)) j ?hp = Some None" by (intro top) auto
          with 1 show ?thesis by (rule lane_end_Nil)
        qed
      qed
      have 5: "0 < j \<longrightarrow> set (L' j) \<subseteq> set (L' (j - 1))"
        using sub[OF j] by (auto simp: L'_def)
      from 1 2 3 4 5 show "lane_ok s' L' j"
        by (simp add: lane_ok_def s')
    qed
    then show ?thesis by blast
  qed
qed

lemma ctor_lanes_ok:
  assumes "0 < max_level" and "max_level < 2 ^ 64"
  shows "lanes_ok (Skip_List_ctor max_level p a) (\<lambda>j. [])"
proof (rule lanes_okI)
  fix j assume "j < kMaxLevel_m (Skip_List_ctor max_level p a :: 'a Skip_List)"
  then have "j < max_level" by (simp add: Skip_List_ctor_def)
  then show "lane_ok (Skip_List_ctor max_level p a :: 'a Skip_List) (\<lambda>j. []) j"
    by (simp add: lane_ok_def Skip_List_ctor_def next_at_CreateNode keys_def)
qed (use assms in \<open>simp_all add: Skip_List_ctor_def elem_def CreateNode_def\<close>)

lemma reachable_lanes_ok: "reachable s \<Longrightarrow> \<exists>L. lanes_ok s L"
proof (induction rule: reachable.induct)
  case (ctor max_level p a)
  then show ?case using ctor_lanes_ok by blast
next
  case (ins s a key rnd r s')
  then show ?case using insert_sl_lanes_ok by blast
next
  case (rem s key r s')
  then show ?case using remove_sl_lanes_ok by blast
qed

subsection \<open>The level-0 walk on a lane\<close>

lemma read_ptr_live: "h x = Some n \<Longrightarrow> read_ptr h x = Inr (elem h x)"
  by (simp add: read_ptr_def elem_def)

lemma level0_while_lane:
  assumes "lane (next_at h 0) x ys" and "list_all (\<lambda>y. elem h y \<noteq> None) ys"
  shows "level0_while h (Some x) out =
           Some (Inr (out @ (case elem h x of None \<Rightarrow> [] | Some v \<Rightarrow> [v]) @ keys h ys))"
  using assms
proof (induction ys arbitrary: x out)
  case Nil
  then obtain l where l: "read_link h x 0 = Inr l" "node l = None"
    by (auto simp: next_at_Some)
  then obtain n where "h x = Some n" by (auto simp: read_link_Inr)
  then have "read_ptr h x = Inr (elem h x)" by (rule read_ptr_live)
  with l show ?case
    by (subst level0_while.simps, simp, subst level0_while.simps)
       (simp add: keys_def split: option.splits)
next
  case (Cons y ys)
  from Cons.prems obtain l where l: "read_link h x 0 = Inr l" "node l = Some y"
    by (auto simp: next_at_Some)
  then obtain n where "h x = Some n" by (auto simp: read_link_Inr)
  then have p: "read_ptr h x = Inr (elem h x)" by (rule read_ptr_live)
  from Cons.prems obtain v where v: "elem h y = Some v" by auto
  have "level0_while h (Some y) (out @ (case elem h x of None \<Rightarrow> [] | Some v \<Rightarrow> [v])) =
      Some (Inr ((out @ (case elem h x of None \<Rightarrow> [] | Some v \<Rightarrow> [v])) @
        (case elem h y of None \<Rightarrow> [] | Some v \<Rightarrow> [v]) @ keys h ys))"
    using Cons.prems by (intro Cons.IH) simp_all
  with l p v show ?case
    by (subst level0_while.simps) (simp add: keys_def split: option.splits)
qed

lemma lanes_ok_level0:
  assumes "lanes_ok s L"
  shows "level0_elements s = Some (Inr (keys (heap s) (L 0)))"
proof -
  have K: "0 < kMaxLevel_m s" and e: "elem (heap s) (head_m s) = None"
    using assms by (simp_all add: lanes_ok_def)
  from lanes_okD[OF assms K] have "lane (next_at (heap s) 0) (head_m s) (L 0)"
    "list_all (\<lambda>y. elem (heap s) y \<noteq> None) (L 0)"
    by (simp_all add: lane_ok_def)
  from level0_while_lane[OF this, of "[]"] e show ?thesis
    by (simp add: level0_elements_def)
qed

subsection \<open>Building reachable lists\<close>

lemma returns_state_of: "returns c \<Longrightarrow> c = Some (Inr (fst (projr (the c)), state_of c))"
  by (auto simp: returns_def state_of_def split: option.splits sum.splits)

lemma reachable_insert:
  "reachable s \<Longrightarrow> heap s a = None \<Longrightarrow> returns (insert_sl s key rnd a) \<Longrightarrow>
   reachable (state_of (insert_sl s key rnd a))"
  using reachable.ins returns_state_of by metis

lemma reachable_remove:
  "reachable s \<Longrightarrow> returns (remove_sl s key) \<Longrightarrow> reachable (state_of (remove_sl s key))"
  using reachable.rem returns_state_of by metis

lemma reachable_default: "reachable (Skip_List_default a)"
  unfolding Skip_List_default_def by (rule reachable.ctor) simp_all

lemma reachable_list_6: "reachable list_6"
  unfolding list_6_def
proof (rule reachable_insert[OF reachable_default])
  show "heap (Skip_List_default 0 :: int Skip_List) 1 = None"
    by (simp add: Skip_List_default_def Skip_List_ctor_def)
  show "returns (insert_sl (Skip_List_default 0) (6::int) (\<lambda>n. if n = 0 then 0 else 1) 1)"
    by code_simp
qed

lemma reachable_list_3_6: "reachable list_3_6"
  unfolding list_3_6_def
proof (rule reachable_insert[OF reachable_list_6])
  show "heap list_6 2 = None" by code_simp
  show "returns (insert_sl list_6 3 (\<lambda>n. 1) 2)" by code_simp
qed

lemma reachable_list_3: "reachable list_3"
  unfolding list_3_def
proof (rule reachable_remove[OF reachable_list_3_6])
  show "returns (remove_sl list_3_6 6)" by code_simp
qed

subsection \<open>The widths of level 0\<close>

lemma width_at_Some: "width_at h j x = Some w \<longleftrightarrow> (\<exists>l. read_link h x j = Inr l \<and> width l = w)"
  by (auto simp: width_at_def split: sum.splits)

lemma width_at_write_link:
  assumes "write_link h x i l = Inr h'"
  shows "width_at h' j y = (if y = x \<and> j = i then Some (width l) else width_at h j y)"
proof -
  from assms obtain n where n: "h x = Some n" "i < length (forward_m n)"
    and h': "h' = h(x \<mapsto> n\<lparr>forward_m := (forward_m n)[i := l]\<rparr>)"
    by (auto simp: write_link_Inr)
  show ?thesis
  proof (cases "y = x")
    case True
    with n h' show ?thesis by (simp add: width_at_def read_link_def nth_list_update)
  next
    case False
    with h' show ?thesis by (simp add: width_at_def read_link_def)
  qed
qed

lemma width_at_set_node:
  assumes "set_node h x i v = Inr h'"
  shows "width_at h' = width_at h"
proof -
  from assms obtain l where l: "read_link h x i = Inr l"
    and w: "write_link h x i (l\<lparr>node := v\<rparr>) = Inr h'"
    by (auto simp: set_node_def bindE_Inr)
  have "width_at h i x = Some (width l)" using l by (simp add: width_at_def)
  then show ?thesis by (auto simp: fun_eq_iff width_at_write_link[OF w])
qed

lemma width_at_set_width:
  "set_width h x i w = Inr h' \<Longrightarrow>
   width_at h' j y = (if y = x \<and> j = i then Some w else width_at h j y)"
  by (auto simp: set_width_def bindE_Inr width_at_write_link)

lemma set_node_ones: "set_node h x i v = Inr h' \<Longrightarrow> level0_ones h \<Longrightarrow> level0_ones h'"
  by (simp add: level0_ones_def width_at_set_node)

lemma set_width_ones:
  "set_width h x i w = Inr h' \<Longrightarrow> i = 0 \<longrightarrow> w = 1 \<Longrightarrow> level0_ones h \<Longrightarrow> level0_ones h'"
  by (auto simp: level0_ones_def width_at_set_width split: if_splits)

lemma CreateNode_ones: "level0_ones h \<Longrightarrow> level0_ones (h(a \<mapsto> CreateNode k level))"
  by (auto simp: level0_ones_def width_at_def read_link_def CreateNode_def default_link_def
      split: if_splits)

lemma delete_ones: "level0_ones h \<Longrightarrow> level0_ones (h(x := None))"
  by (auto simp: level0_ones_def width_at_def read_link_def split: if_splits)

lemma raise_for_ones:
  "raise_for h hp level i u = Inr (h', u') \<Longrightarrow> 0 < i \<Longrightarrow> level0_ones h \<Longrightarrow> level0_ones h'"
proof (induction h hp level i u rule: raise_for.induct)
  case (1 h hp level i u)
  show ?case
  proof (cases "i < level")
    case False
    with "1.prems" show ?thesis by (subst (asm) raise_for.simps) auto
  next
    case True
    with "1.prems" obtain h1 where
      il: "i < length u" and sw: "set_width h hp i 0 = Inr h1"
      and r: "raise_for h1 hp level (Suc i) (u[i := Some hp]) = Inr (h', u')"
      by (subst (asm) raise_for.simps) (auto simp: arr_set_def split: if_splits sum.splits)
    have a: "arr_set u i (Some hp) = Inr (u[i := Some hp])" using il by (simp add: arr_set_def)
    have "level0_ones h1" using sw "1.prems"(2,3) by (intro set_width_ones[OF sw]) auto
    with "1.IH"[OF True a sw r] show ?thesis by simp
  qed
qed

lemma insert_widths_ones:
  "insert_widths h a ui u uw i = Inr h' \<Longrightarrow> 0 < i \<Longrightarrow> level0_ones h \<Longrightarrow> level0_ones h'"
  by (auto simp: insert_widths_def bindE_Inr split: if_splits
      intro!: set_width_ones[where i = i and h' = h'] elim: set_width_ones[rotated 2])

lemma insert_step_ones:
  assumes "insert_step h a u uw i = Inr h'" and "level0_ones h"
  shows "level0_ones h'"
proof -
  from assms(1) obtain ui l h1 h2 where
    l: "read_link h ui i = Inr l"
    and h1: "set_node h a i (node l) = Inr h1"
    and h2: "set_node h1 ui i (Some a) = Inr h2"
    and h': "(if i > 0 then insert_widths h2 a ui u uw i else Inr h2) = Inr h'"
    by (auto simp: insert_step_def bindE_Inr)
  have "level0_ones h2" using assms(2) h1 h2 by (blast intro: set_node_ones)
  with h' show ?thesis by (auto split: if_splits intro: insert_widths_ones)
qed

lemma insert_loop_ones:
  "insert_loop h a u uw level i = Inr h' \<Longrightarrow> level0_ones h \<Longrightarrow> level0_ones h'"
proof (induction h a u uw level i rule: insert_loop.induct)
  case (1 h a u uw level i)
  show ?case
  proof (cases "i < level")
    case False
    with "1.prems" show ?thesis by (subst (asm) insert_loop.simps) auto
  next
    case True
    with "1.prems" obtain h1 where
      st: "insert_step h a u uw i = Inr h1"
      and r: "insert_loop h1 a u uw level (Suc i) = Inr h'"
      by (subst (asm) insert_loop.simps) (auto split: sum.splits)
    from insert_step_ones[OF st "1.prems"(2)] "1.IH"[OF True st r] show ?thesis by simp
  qed
qed

lemma remove_step_ones:
  assumes st: "remove_step h x u i = Inr h'" and ones: "level0_ones h"
    and i0: "i = 0 \<longrightarrow> (\<exists>x0. u ! 0 = Some x0 \<and> next_at h 0 x0 = Some (Some x))"
  shows "level0_ones h'"
proof -
  from st obtain ui l where
    u: "i < length u" "u ! i = Some ui"
    and l: "read_link h ui i = Inr l"
    and rest: "(if node l \<noteq> Some x then set_width h ui i (width l - 1)
       else
         bindE (read_link h x i) (\<lambda>lx.
         bindE (set_node h ui i (node lx)) (\<lambda>h1.
         bindE (set_node h1 x i None) (\<lambda>h2.
         bindE (read_link h2 x i) (\<lambda>lx2.
           if width lx2 > 0
           then bindE (read_link h2 ui i) (\<lambda>lu. set_width h2 ui i (width lu + (width lx2 - 1)))
           else set_width h2 ui i 0))))) = Inr h'"
    by (auto simp: remove_step_def bindE_Inr arr_get_Inr nonnull_Inr)
  have nl: "next_at h i ui = Some (node l)" using l by (simp add: next_at_def)
  show ?thesis
  proof (cases "node l = Some x")
    case False
    have "i \<noteq> 0"
    proof
      assume "i = 0"
      with i0 u obtain x0 where "ui = x0" "next_at h 0 x0 = Some (Some x)" by auto
      with nl \<open>i = 0\<close> False show False by simp
    qed
    moreover from False rest have "set_width h ui i (width l - 1) = Inr h'" by simp
    ultimately show ?thesis using ones by (auto intro: set_width_ones)
  next
    case True
    with rest obtain lx h1 h2 lx2 where
      lx: "read_link h x i = Inr lx"
      and h1: "set_node h ui i (node lx) = Inr h1"
      and h2: "set_node h1 x i None = Inr h2"
      and lx2: "read_link h2 x i = Inr lx2"
      and w: "(if width lx2 > 0
           then bindE (read_link h2 ui i) (\<lambda>lu. set_width h2 ui i (width lu + (width lx2 - 1)))
           else set_width h2 ui i 0) = Inr h'"
      by (auto simp: bindE_Inr)
    have o2: "level0_ones h2" using ones h1 h2 by (blast intro: set_node_ones)
    show ?thesis
    proof (cases "i = 0")
      case False
      with w o2 show ?thesis by (auto simp: bindE_Inr split: if_splits intro: set_width_ones)
    next
      case i: True
      have "width lx2 = 1" using o2 lx2 i by (auto simp: level0_ones_def width_at_Some)
      with w obtain lu where lu: "read_link h2 ui i = Inr lu"
        and sw: "set_width h2 ui i (width lu + (1 - 1)) = Inr h'"
        by (auto simp: bindE_Inr)
      have "width lu = 1" using o2 lu i by (auto simp: level0_ones_def width_at_Some)
      with sw have "set_width h2 ui i 1 = Inr h'" by simp
      with o2 show ?thesis by (auto intro: set_width_ones)
    qed
  qed
qed

lemma remove_loop_ones:
  "remove_loop h x u level i = Inr h' \<Longrightarrow> 0 < i \<Longrightarrow> level0_ones h \<Longrightarrow> level0_ones h'"
proof (induction h x u level i rule: remove_loop.induct)
  case (1 h x u level i)
  show ?case
  proof (cases "i < level")
    case False
    with "1.prems" show ?thesis by (subst (asm) remove_loop.simps) auto
  next
    case True
    with "1.prems" obtain h1 where
      st: "remove_step h x u i = Inr h1"
      and r: "remove_loop h1 x u level (Suc i) = Inr h'"
      by (subst (asm) remove_loop.simps) (auto split: sum.splits)
    have "level0_ones h1" using st "1.prems"(2,3) by (intro remove_step_ones[OF st]) auto
    with "1.IH"[OF True st r] show ?thesis by simp
  qed
qed

lemma remove_for_update0:
  "remove_for h key (Suc i) x u = Some (Inr (x0, u')) \<Longrightarrow> 0 < length u' \<and> u' ! 0 = Some x0"
proof (induction i arbitrary: x u)
  case 0
  then show ?case
    by (auto simp: arr_set_Inr split: option.splits sum.splits)
next
  case (Suc i)
  from Suc.prems obtain x' where
    "remove_for h key (Suc i) x' (u[Suc i := Some x']) = Some (Inr (x0, u'))"
    by (subst (asm) remove_for.simps) (auto simp: arr_set_Inr split: option.splits sum.splits)
  then show ?case by (rule Suc.IH)
qed

lemma insert_sl_ones:
  assumes ins: "insert_sl s key rnd a = Some (Inr (r, s'))"
    and lv: "1 \<le> level_m s" and ones: "level0_ones (heap s)"
  shows "level0_ones (heap s')"
proof -
  from ins obtain u uw h1 u1 level1 dup where
    ra: "(if RandomLevel rnd s > level_m s
          then bindE (raise_for (heap s) (head_m s) (RandomLevel rnd s) (level_m s) u)
                 (\<lambda>(h, u). Inr (h, u, RandomLevel rnd s))
          else Inr (heap s, u, level_m s)) = Inr (h1, u1, level1)"
    and fin: "(case dup of
         Some y \<Rightarrow> Some (Inr (y, s\<lparr>level_m := level1, heap := h1\<rparr>))
       | None \<Rightarrow>
           liftE (insert_loop (h1(a \<mapsto> CreateNode (Some key) (RandomLevel rnd s))) a u1 uw
                    (RandomLevel rnd s) 0)
             (\<lambda>h3. Some (Inr (a, s\<lparr>level_m := level1, width_m := width_m s + 1, heap := h3\<rparr>))))
        = Some (Inr (r, s'))"
    unfolding insert_sl_def
    by (auto simp: bindR_Inr liftE_Inr Let_def)
  have o1: "level0_ones h1"
    using ra ones lv by (auto simp: bindE_Inr split: if_splits intro: raise_for_ones)
  show ?thesis
  proof (cases dup)
    case (Some y)
    with fin o1 show ?thesis by auto
  next
    case None
    with fin obtain h3 where
      lp: "insert_loop (h1(a \<mapsto> CreateNode (Some key) (RandomLevel rnd s))) a u1 uw
             (RandomLevel rnd s) 0 = Inr h3"
      and s': "heap s' = h3"
      by (auto simp: liftE_Inr)
    from insert_loop_ones[OF lp CreateNode_ones[OF o1]] s' show ?thesis by simp
  qed
qed

lemma remove_sl_ones:
  assumes rem: "remove_sl s key = Some (Inr (r, s'))"
    and lv: "1 \<le> level_m s" and ones: "level0_ones (heap s)"
  shows "level0_ones (heap s')"
proof -
  from rem obtain x0 u l x v where
    rf: "remove_for (heap s) key (level_m s) (head_m s) (replicate (level_m s) None)
           = Some (Inr (x0, u))"
    and l: "read_link (heap s) x0 0 = Inr l" and nl: "node l = Some x"
    and fin: "(if \<not> (v = key) then Some (Inr (None, s))
       else
         liftE (remove_loop (heap s) x u (level_m s) 0) (\<lambda>h1.
         liftE (read_ptr h1 x) (\<lambda>old_data.
         liftE (lower_level (h1(x := None)) (head_m s) (level_m s)) (\<lambda>level'.
           Some (Inr (old_data, s\<lparr>level_m := level', heap := h1(x := None)\<rparr>)))))) = Some (Inr (r, s'))"
    unfolding remove_sl_def by (auto simp: bindR_Inr liftE_Inr nonnull_Inr)
  show ?thesis
  proof (cases "v = key")
    case False
    with fin ones show ?thesis by auto
  next
    case True
    with fin obtain h1 where
      lp: "remove_loop (heap s) x u (level_m s) 0 = Inr h1"
      and s': "heap s' = h1(x := None)"
      by (auto simp: liftE_Inr)
    obtain k where k: "level_m s = Suc k" using lv by (cases "level_m s") auto
    from remove_for_update0[OF rf[unfolded k]] have u0: "u ! 0 = Some x0" by simp
    have nx0: "next_at (heap s) 0 x0 = Some (Some x)" using l nl by (simp add: next_at_def)
    from lp lv obtain h0 where
      st: "remove_step (heap s) x u 0 = Inr h0"
      and r: "remove_loop h0 x u (level_m s) (Suc 0) = Inr h1"
      by (subst (asm) remove_loop.simps) (auto split: sum.splits)
    have "level0_ones h0" using st ones u0 nx0 by (intro remove_step_ones[OF st]) auto
    then have "level0_ones h1" using r by (intro remove_loop_ones[OF r]) auto
    then show ?thesis by (simp add: s' delete_ones)
  qed
qed

lemma ctor_ones: "level0_ones (heap (Skip_List_ctor max_level p a))"
  by (auto simp: Skip_List_ctor_def level0_ones_def width_at_def read_link_def CreateNode_def
      default_link_def split: if_splits)

lemma reachable_ones: "reachable s \<Longrightarrow> level0_ones (heap s)"
proof (induction rule: reachable.induct)
  case (ctor max_level p a)
  show ?case by (rule ctor_ones)
next
  case (ins s a key rnd r s')
  from reachable_lanes_ok[OF ins.hyps(1)] have "1 \<le> level_m s" by (auto simp: lanes_ok_def)
  with ins show ?case by (blast intro: insert_sl_ones)
next
  case (rem s key r s')
  from reachable_lanes_ok[OF rem.hyps(1)] have "1 \<le> level_m s" by (auto simp: lanes_ok_def)
  with rem show ?case by (blast intro: remove_sl_ones)
qed

text \<open>
  Level 0 keeps no widths: in every reachable list every link of index 0 carries the
  width 1 of the default initialiser, whether it has a target or not.
\<close>

lemma level0_width_one:
  assumes "reachable s" and "read_link (heap s) x 0 = Inr l"
  shows "width l = 1"
  using reachable_ones[OF assms(1)] assms(2)
  by (auto simp: level0_ones_def width_at_Some)

subsection \<open>Calls that return\<close>

lemma read_link_live: "next_at h j x \<noteq> None \<Longrightarrow> \<exists>l. read_link h x j = Inr l"
  by (auto simp: next_at_def split: sum.splits)

lemma set_node_returns:
  assumes "next_at h i x \<noteq> None"
  shows "\<exists>h'. set_node h x i v = Inr h'"
proof -
  from read_link_live[OF assms] obtain l where l: "read_link h x i = Inr l" ..
  then obtain n where "h x = Some n" "i < length (forward_m n)" by (auto simp: read_link_Inr)
  then show ?thesis by (simp add: set_node_def l write_link_def)
qed

lemma set_width_returns:
  assumes "next_at h i x \<noteq> None"
  shows "\<exists>h'. set_width h x i w = Inr h'"
proof -
  from read_link_live[OF assms] obtain l where l: "read_link h x i = Inr l" ..
  then obtain n where "h x = Some n" "i < length (forward_m n)" by (auto simp: read_link_Inr)
  then show ?thesis by (simp add: set_width_def l write_link_def)
qed

lemma raise_for_returns:
  "(\<And>j. i \<le> j \<Longrightarrow> j < level \<Longrightarrow> j < length u \<and> next_at h j hp \<noteq> None) \<Longrightarrow>
   \<exists>h' u'. raise_for h hp level i u = Inr (h', u')"
proof (induction h hp level i u rule: raise_for.induct)
  case (1 h hp level i u)
  show ?case
  proof (cases "i < level")
    case False
    then show ?thesis by (subst raise_for.simps) simp
  next
    case True
    with "1.prems"[of i] have il: "i < length u" and live: "next_at h i hp \<noteq> None" by simp_all
    have a: "arr_set u i (Some hp) = Inr (u[i := Some hp])" using il by (simp add: arr_set_def)
    from set_width_returns[OF live] obtain h1 where sw: "set_width h hp i 0 = Inr h1" ..
    have "\<exists>h' u'. raise_for h1 hp level (Suc i) (u[i := Some hp]) = Inr (h', u')"
    proof (rule "1.IH"[OF True a sw])
      fix j assume "Suc i \<le> j" "j < level"
      with "1.prems"[of j] show "j < length (u[i := Some hp]) \<and> next_at h1 j hp \<noteq> None"
        by (simp add: next_at_set_width[OF sw])
    qed
    with True a sw show ?thesis by (subst raise_for.simps) simp
  qed
qed

lemma insert_widths_returns:
  assumes "0 < i" and "i - 1 < length uw" and "i - 1 < length u" and "u ! (i - 1) = Some uj"
    and "next_at h (i - 1) uj \<noteq> None" and "next_at h i ui \<noteq> None" and "next_at h i a \<noteq> None"
  shows "\<exists>h'. insert_widths h a ui u uw i = Inr h'"
proof -
  from read_link_live[OF assms(5)] obtain lj where lj: "read_link h uj (i - 1) = Inr lj" ..
  from read_link_live[OF assms(6)] obtain li where li: "read_link h ui i = Inr li" ..
  have "\<exists>h1. (if width li > 0
            then set_width h a i (width li + 1 - (uw ! (i - 1) + width lj))
            else set_width h a i 0) = Inr h1"
    using set_width_returns[OF assms(7)] by simp
  then obtain h1 where h1: "(if width li > 0
            then set_width h a i (width li + 1 - (uw ! (i - 1) + width lj))
            else set_width h a i 0) = Inr h1" ..
  then have "next_at h1 = next_at h" by (auto split: if_splits dest: next_at_set_width)
  with assms(6) have "next_at h1 i ui \<noteq> None" by simp
  from set_width_returns[OF this] obtain h' where
    "set_width h1 ui i (uw ! (i - 1) + width lj) = Inr h'" ..
  with assms(2,3,4) lj li h1 show ?thesis
    by (auto simp: insert_widths_def arr_get_def nonnull_def split: if_splits)
qed

lemma insert_step_returns:
  assumes "i < length u" and "u ! i = Some ui"
    and "next_at h i ui \<noteq> None" and "next_at h i a \<noteq> None"
    and "0 < i \<Longrightarrow> i - 1 < length uw \<and> (\<exists>uj. u ! (i - 1) = Some uj \<and> next_at h (i - 1) uj \<noteq> None)"
  shows "\<exists>h'. insert_step h a u uw i = Inr h'"
proof -
  from read_link_live[OF assms(3)] obtain l where l: "read_link h ui i = Inr l" ..
  from set_node_returns[OF assms(4)] obtain h1 where h1: "set_node h a i (node l) = Inr h1" ..
  have "next_at h1 i ui \<noteq> None" using assms(3) by (simp add: next_at_set_node[OF h1])
  from set_node_returns[OF this] obtain h2 where h2: "set_node h1 ui i (Some a) = Inr h2" ..
  have live2: "\<And>j y. next_at h j y \<noteq> None \<Longrightarrow> next_at h2 j y \<noteq> None"
    by (simp add: next_at_set_node[OF h2] next_at_set_node[OF h1])
  have "\<exists>h'. (if i > 0 then insert_widths h2 a ui u uw i else Inr h2) = Inr h'"
  proof (cases "0 < i")
    case False
    then show ?thesis by simp
  next
    case True
    with assms(5) obtain uj where uj: "i - 1 < length uw" "u ! (i - 1) = Some uj"
      "next_at h (i - 1) uj \<noteq> None" by auto
    have "i - 1 < length u" using assms(1) by simp
    from insert_widths_returns[OF True uj(1) this uj(2) live2[OF uj(3)] live2[OF assms(3)]
        live2[OF assms(4)]]
    show ?thesis using True by simp
  qed
  with assms(1,2) l h1 h2 show ?thesis
    by (simp add: insert_step_def arr_get_def nonnull_def)
qed

lemma insert_loop_returns:
  "(\<And>j. j < level \<Longrightarrow> j < length u \<and> j < length uw \<and>
         (\<exists>uj. u ! j = Some uj \<and> next_at h j uj \<noteq> None) \<and> next_at h j a \<noteq> None) \<Longrightarrow>
   \<exists>h'. insert_loop h a u uw level i = Inr h'"
proof (induction h a u uw level i rule: insert_loop.induct)
  case (1 h a u uw level i)
  show ?case
  proof (cases "i < level")
    case False
    then show ?thesis by (subst insert_loop.simps) simp
  next
    case True
    from "1.prems"[OF True] obtain ui where
      ui: "i < length u" "u ! i = Some ui" "next_at h i ui \<noteq> None" "next_at h i a \<noteq> None"
      by auto
    have "\<exists>h1. insert_step h a u uw i = Inr h1"
    proof (rule insert_step_returns[OF ui])
      assume "0 < i"
      with True have "i - 1 < level" by simp
      from "1.prems"[OF this]
      show "i - 1 < length uw \<and> (\<exists>uj. u ! (i - 1) = Some uj \<and> next_at h (i - 1) uj \<noteq> None)"
        by auto
    qed
    then obtain h1 where st: "insert_step h a u uw i = Inr h1" ..
    from insert_step_effect[OF st] obtain ui' where
      lu: "next_at h i ui' \<noteq> None"
      and n1: "\<And>j y. next_at h1 j y =
              (if j = i \<and> y = ui' then Some (Some a)
               else if j = i \<and> y = a then next_at h i ui'
               else next_at h j y)"
      by auto
    have live1: "\<And>j y. next_at h j y \<noteq> None \<Longrightarrow> next_at h1 j y \<noteq> None"
      using lu by (simp add: n1)
    have "\<exists>h'. insert_loop h1 a u uw level (Suc i) = Inr h'"
    proof (rule "1.IH"[OF True st])
      fix j assume "j < level"
      from "1.prems"[OF this] live1
      show "j < length u \<and> j < length uw \<and>
         (\<exists>uj. u ! j = Some uj \<and> next_at h1 j uj \<noteq> None) \<and> next_at h1 j a \<noteq> None"
        by auto
    qed
    with True st show ?thesis by (subst insert_loop.simps) simp
  qed
qed

lemma insert_dup_returns:
  assumes "next_at h 0 x = Some t" and "\<And>y. t = Some y \<Longrightarrow> elem h y \<noteq> None"
  shows "\<exists>d. insert_dup h key x = Inr d"
proof -
  from assms(1) obtain l where l: "read_link h x 0 = Inr l" "node l = t"
    by (auto simp: next_at_Some)
  show ?thesis
  proof (cases t)
    case None
    with l show ?thesis by (simp add: insert_dup_def)
  next
    case (Some y)
    with assms(2) obtain v where "elem h y = Some v" by auto
    then have "deref_ptr h y = Inr v" by (rule deref_ptr_elem)
    with l Some show ?thesis by (simp add: insert_dup_def)
  qed
qed

text \<open>
  On a list with well-formed lanes \<^verbatim>\<open>insert\<close> returns, for every key, all random draws
  and every address of the new node that holds no live node.
\<close>

lemma insert_sl_returns:
  assumes ok: "lanes_ok s L" and fresh: "heap s a = None"
  shows "returns (insert_sl s key rnd a)"
proof -
  let ?h = "heap s"
  let ?hp = "head_m s"
  let ?K = "kMaxLevel_m s"
  let ?lv = "level_m s"
  let ?level = "RandomLevel rnd s"
  define p where "p = (\<lambda>j. pred_of ?h key ?hp (L j))"
  have lvK: "1 \<le> ?lv" "?lv \<le> ?K" "?K < 2 ^ 64" and ehp: "elem ?h ?hp = None"
    using ok by (simp_all add: lanes_ok_def)
  have lok: "\<And>j. j < ?K \<Longrightarrow> lane_ok s L j"
    using ok by (simp add: lanes_okD)
  have lane: "\<And>j. j < ?K \<Longrightarrow> lane (next_at ?h j) ?hp (L j)"
    and els: "\<And>j y. j < ?K \<Longrightarrow> y \<in> set (L j) \<Longrightarrow> elem ?h y \<noteq> None"
    and emp: "\<And>j. j < ?K \<Longrightarrow> ?lv \<le> j \<Longrightarrow> L j = []"
    using lok by (auto simp: lane_ok_def list_all_iff)
  have level_b: "1 \<le> ?level" "?level \<le> ?K"
    using RandomLevel_bounds[of rnd s] lvK by auto
  from insert_for_lanes_ok[OF ok, of ?K key] lvK obtain x u uw where
    sf: "insert_for ?h key ?lv ?hp (replicate ?K None) (replicate ?K 0) = Some (Inr (x, u, uw))"
    and lu: "length u = ?K" and luw: "length uw = ?K"
    and ub: "\<forall>j<?lv. u ! j = Some (p j)"
    and x: "x = p 0"
    by (auto simp: p_def)
  have pin: "\<And>j. j < ?K \<Longrightarrow> p j \<in> set (?hp # L j)"
    using pred_of_cases[of ?h key ?hp] by (auto simp: p_def)
  have plive: "\<And>j. j < ?K \<Longrightarrow> next_at ?h j (p j) \<noteq> None"
    using lane_live[OF lane pin] by simp
  have "\<exists>h1 u1 level1. (if ?level > ?lv
          then bindE (raise_for ?h ?hp ?level ?lv u) (\<lambda>(h, u). Inr (h, u, ?level))
          else Inr (?h, u, ?lv)) = Inr (h1, u1, level1) \<and>
        next_at h1 = next_at ?h \<and> elem h1 = elem ?h \<and> length u1 = ?K \<and>
        (\<forall>j<?level. u1 ! j = Some (p j))"
  proof (cases "?level > ?lv")
    case False
    with ub lu show ?thesis by auto
  next
    case True
    have "\<exists>h' u'. raise_for ?h ?hp ?level ?lv u = Inr (h', u')"
    proof (rule raise_for_returns)
      fix j assume "?lv \<le> j" "j < ?level"
      with level_b lu lane_live[OF lane, of j ?hp] show "j < length u \<and> next_at ?h j ?hp \<noteq> None"
        by simp
    qed
    then obtain h1 u1 where rf: "raise_for ?h ?hp ?level ?lv u = Inr (h1, u1)" by blast
    from raise_for_effect[OF rf] have
      e: "next_at h1 = next_at ?h" "elem h1 = elem ?h" "length u1 = length u"
      and u1: "\<And>j. u1 ! j = (if ?lv \<le> j \<and> j < ?level then Some ?hp else u ! j)"
      by auto
    have "\<forall>j<?level. u1 ! j = Some (p j)"
    proof (intro allI impI)
      fix j assume j: "j < ?level"
      show "u1 ! j = Some (p j)"
      proof (cases "j < ?lv")
        case True
        with ub show ?thesis by (simp add: u1)
      next
        case False
        with j level_b have "L j = []" by (intro emp) auto
        with False j show ?thesis by (simp add: u1 p_def)
      qed
    qed
    with True rf e lu show ?thesis by simp
  qed
  then obtain h1 u1 level1 where
    ra: "(if ?level > ?lv
          then bindE (raise_for ?h ?hp ?level ?lv u) (\<lambda>(h, u). Inr (h, u, ?level))
          else Inr (?h, u, ?lv)) = Inr (h1, u1, level1)"
    and n1: "next_at h1 = next_at ?h" and e1: "elem h1 = elem ?h" and lu1: "length u1 = ?K"
    and u1: "\<And>j. j < ?level \<Longrightarrow> u1 ! j = Some (p j)"
    by blast
  have K0: "0 < ?K" using lvK by simp
  have "\<exists>d. insert_dup h1 key x = Inr d"
  proof -
    have "next_at ?h 0 x =
      (case dropWhile (below ?h key) (L 0) of [] \<Rightarrow> Some None | z # zs \<Rightarrow> Some (Some z))"
      unfolding x p_def using lane[OF K0] by (rule next_at_pred_of)
    then obtain t where t: "next_at h1 0 x = Some t"
      and tin: "\<And>y. t = Some y \<Longrightarrow> y \<in> set (dropWhile (below ?h key) (L 0))"
      by (cases "dropWhile (below ?h key) (L 0)") (auto simp: n1)
    show ?thesis
    proof (rule insert_dup_returns[OF t])
      fix y assume "t = Some y"
      then have "y \<in> set (L 0)" using tin by (auto dest: set_dropWhileD)
      with els[OF K0] show "elem h1 y \<noteq> None" by (simp add: e1)
    qed
  qed
  then obtain d where dp: "insert_dup h1 key x = Inr d" ..
  have "\<exists>h3. insert_loop (h1(a \<mapsto> CreateNode (Some key) ?level)) a u1 uw ?level 0 = Inr h3"
  proof (rule insert_loop_returns)
    fix j assume j: "j < ?level"
    then have jK: "j < ?K" using level_b by simp
    have "p j \<noteq> a" using plive[OF jK] fresh by (auto simp: next_at_None_dead)
    then have "next_at (h1(a \<mapsto> CreateNode (Some key) ?level)) j (p j) \<noteq> None"
      using plive[OF jK] by (simp add: next_at_CreateNode n1)
    moreover have "next_at (h1(a \<mapsto> CreateNode (Some key) ?level)) j a \<noteq> None"
      using j by (simp add: next_at_CreateNode)
    ultimately show "j < length u1 \<and> j < length uw \<and>
         (\<exists>uj. u1 ! j = Some uj \<and> next_at (h1(a \<mapsto> CreateNode (Some key) ?level)) j uj \<noteq> None) \<and>
         next_at (h1(a \<mapsto> CreateNode (Some key) ?level)) j a \<noteq> None"
      using jK lu1 luw u1[OF j] by simp
  qed
  then obtain h3 where
    lp: "insert_loop (h1(a \<mapsto> CreateNode (Some key) ?level)) a u1 uw ?level 0 = Inr h3" ..
  show ?thesis
    unfolding insert_sl_def returns_def
    using sf ra dp lp by (cases d) (simp_all add: Let_def)
qed

lemma reachable_insert_returns:
  "reachable s \<Longrightarrow> heap s a = None \<Longrightarrow> returns (insert_sl s key rnd a)"
  using reachable_lanes_ok insert_sl_returns by blast

subsection \<open>at returns\<close>

lemma at_while_lane:
  assumes "lane (next_at h j) x ys"
  shows "(\<exists>y\<in>set ys. at_while h j w x = Some (Inr (Inl y))) \<or>
         (\<exists>w' x'. x' \<in> set (x # ys) \<and> at_while h j w x = Some (Inr (Inr (w', x'))))"
  using assms
proof (induction ys arbitrary: x w)
  case Nil
  then obtain l where "read_link h x j = Inr l" "node l = None"
    by (auto simp: next_at_Some)
  then show ?case by (subst at_while.simps) simp
next
  case (Cons y ys)
  from Cons.prems obtain l where l: "read_link h x j = Inr l" "node l = Some y"
    by (auto simp: next_at_Some)
  from Cons.prems have ly: "lane (next_at h j) y ys" by simp
  show ?case
  proof (cases "width l \<le> w \<and> w - width l \<noteq> 0")
    case True
    from Cons.IH[OF ly, of "w - width l"] True l show ?thesis
      by (subst (1 2) at_while.simps) auto
  next
    case False
    with l show ?thesis by (subst (1 2) at_while.simps) auto
  qed
qed

lemma at_for_lanes:
  assumes ok: "\<And>j. j < i \<Longrightarrow> lane (next_at h j) hp (L j)"
    and d: "\<And>j. j < i \<Longrightarrow> distinct (hp # L j)"
    and sub: "\<And>j. Suc j < i \<Longrightarrow> set (L (Suc j)) \<subseteq> set (L j)"
    and x: "x \<in> set (hp # L (i - 1))"
  shows "\<exists>r. at_for h i w x = Some (Inr r)"
  using assms
proof (induction i arbitrary: x w)
  case 0
  then show ?case by simp
next
  case (Suc i)
  from Suc.prems(4) have xin: "x \<in> set (hp # L i)" by simp
  have "\<exists>ys. lane (next_at h i) x ys \<and> set ys \<subseteq> set (L i)"
  proof (cases "x = hp")
    case True
    with Suc.prems(1)[of i] show ?thesis by auto
  next
    case False
    with xin obtain pre suf where "L i = pre @ x # suf" by (auto dest: split_list)
    with Suc.prems(1)[of i] have "lane (next_at h i) x suf" "set suf \<subseteq> set (L i)"
      by (auto simp: lane_append)
    then show ?thesis by blast
  qed
  then obtain ys where ys: "lane (next_at h i) x ys" "set ys \<subseteq> set (L i)" by blast
  from at_while_lane[OF ys(1), of w] show ?case
  proof
    assume "\<exists>y\<in>set ys. at_while h i w x = Some (Inr (Inl y))"
    then show ?thesis by auto
  next
    assume "\<exists>w' x'. x' \<in> set (x # ys) \<and> at_while h i w x = Some (Inr (Inr (w', x')))"
    then obtain w' x' where x': "x' \<in> set (x # ys)"
      and aw: "at_while h i w x = Some (Inr (Inr (w', x')))" by blast
    from x' xin ys(2) have x'in: "x' \<in> set (hp # L i)" by auto
    have "x' \<in> set (hp # L (i - 1))"
    proof (cases i)
      case 0
      with x'in show ?thesis by simp
    next
      case (Suc k)
      with Suc.prems(3)[of k] x'in show ?thesis by auto
    qed
    then have "\<exists>r. at_for h i w' x' = Some (Inr r)"
      using Suc.prems(1,2,3) by (intro Suc.IH) auto
    with aw show ?thesis by simp
  qed
qed

lemma at_sl_returns:
  assumes "lanes_ok s L"
  shows "returns (at_sl s index)"
proof (cases "index \<ge> width_m s")
  case True
  then show ?thesis by (simp add: at_sl_def returns_def)
next
  case False
  have lv: "level_m s \<le> kMaxLevel_m s" "elem (heap s) (head_m s) = None"
    using assms by (simp_all add: lanes_ok_def)
  have "\<exists>r. at_for (heap s) (level_m s) (index + 1) (head_m s) = Some (Inr r)"
  proof (rule at_for_lanes[where L = L and hp = "head_m s"])
    fix j assume "j < level_m s"
    with lv have j: "j < kMaxLevel_m s" by simp
    from lanes_okD[OF assms j] show "lane (next_at (heap s) j) (head_m s) (L j)"
      by (simp add: lane_ok_def)
    from lane_ok_distinct[OF lanes_okD[OF assms j] lv(2)] show "distinct (head_m s # L j)" .
  next
    fix j assume "Suc j < level_m s"
    with lv have "Suc j < kMaxLevel_m s" by simp
    from lanes_okD[OF assms this] show "set (L (Suc j)) \<subseteq> set (L j)" by (simp add: lane_ok_def)
  next
    show "head_m s \<in> set (head_m s # L (level_m s - 1))" by simp
  qed
  with False show ?thesis by (auto simp: at_sl_def returns_def)
qed

lemma reachable_at_returns: "reachable s \<Longrightarrow> returns (at_sl s index)"
  using reachable_lanes_ok at_sl_returns by blast

subsection \<open>What find and remove leave alone\<close>

lemma find_sl_read_only: "find_sl s key = Some (Inr (r, s')) \<Longrightarrow> s' = s"
  by (auto simp: find_sl_def bindR_Inr liftE_Inr split: if_splits)

text \<open>No returning \<^verbatim>\<open>remove\<close> changes \<^verbatim>\<open>width_\<close>, whether it finds the key or not.\<close>

lemma remove_sl_width: "remove_sl s key = Some (Inr (r, s')) \<Longrightarrow> width_m s' = width_m s"
  by (auto simp: remove_sl_def bindR_Inr liftE_Inr split: if_splits)

subsection \<open>find and duplicate insert on well-formed lanes\<close>

lemma find_for_insert_for:
  "i \<le> length u0 \<Longrightarrow> length uw0 = length u0 \<Longrightarrow>
   find_for h key i x0 =
     (case insert_for h key i x0 u0 uw0 of
        None \<Rightarrow> None
      | Some (Inl e) \<Rightarrow> Some (Inl e)
      | Some (Inr (x, u, uw)) \<Rightarrow> Some (Inr x))"
proof (induction i arbitrary: x0 u0 uw0)
  case 0
  then show ?case by simp
next
  case (Suc i)
  show ?case
  proof (cases "search_while h key i 0 x0")
    case None
    then show ?thesis by simp
  next
    case (Some r)
    show ?thesis
    proof (cases r)
      case (Inl e)
      with Some show ?thesis by simp
    next
      case (Inr wx)
      obtain ws x' where wx: "wx = (ws, x')" by (cases wx)
      from Suc.prems have "i \<le> length (u0[i := Some x'])"
        "length (uw0[i := ws]) = length (u0[i := Some x'])" by simp_all
      from Suc.IH[OF this, of x'] Suc.prems Some Inr wx show ?thesis
        by (simp add: arr_set_def)
    qed
  qed
qed

text \<open>
  \<^verbatim>\<open>find\<close> on well-formed lanes: it faults exactly when no element of the list is at
  least the key (the step after the search runs off the end); otherwise it returns the
  first node that is not below the key if that node holds the key, and null if not.
\<close>

lemma find_sl_lanes:
  assumes ok: "lanes_ok s L"
  shows "find_sl s key =
           (case dropWhile (below (heap s) key) (L 0) of
              [] \<Rightarrow> Some (Inl NullDeref)
            | y # ys \<Rightarrow> Some (Inr (if the (elem (heap s) y) = key then Some y else None, s)))"
proof -
  let ?h = "heap s"
  have K0: "0 < kMaxLevel_m s" using ok by (simp add: lanes_ok_def)
  from lanes_okD[OF ok K0] have l0: "lane (next_at ?h 0) (head_m s) (L 0)"
    and e0: "list_all (\<lambda>y. elem ?h y \<noteq> None) (L 0)"
    by (simp_all add: lane_ok_def)
  from insert_for_lanes_ok[OF ok, of "level_m s" key] obtain x u uw where
    sf: "insert_for ?h key (level_m s) (head_m s) (replicate (level_m s) None)
           (replicate (level_m s) 0) = Some (Inr (x, u, uw))"
    and x: "x = pred_of ?h key (head_m s) (L 0)"
    by auto
  have ff: "find_for ?h key (level_m s) (head_m s) = Some (Inr x)"
    using find_for_insert_for[of "level_m s" "replicate (level_m s) None"
        "replicate (level_m s) 0" ?h key "head_m s"] sf by simp
  define ds where "ds = dropWhile (below ?h key) (L 0)"
  have nx: "next_at ?h 0 x = (case ds of [] \<Rightarrow> Some None | z # zs \<Rightarrow> Some (Some z))"
    unfolding x ds_def using l0 by (rule next_at_pred_of)
  have "find_sl s key =
           (case ds of
              [] \<Rightarrow> Some (Inl NullDeref)
            | y # ys \<Rightarrow> Some (Inr (if the (elem ?h y) = key then Some y else None, s)))"
  proof (cases ds)
    case Nil
    with nx obtain l where "read_link ?h x 0 = Inr l" "node l = None"
      by (auto simp: next_at_Some)
    with ff Nil show ?thesis by (simp add: find_sl_def nonnull_def)
  next
    case (Cons y ys)
    with nx obtain l where l: "read_link ?h x 0 = Inr l" "node l = Some y"
      by (auto simp: next_at_Some)
    have "y \<in> set (dropWhile (below ?h key) (L 0))" using Cons by (simp add: ds_def[symmetric])
    then have "y \<in> set (L 0)" by (rule set_dropWhileD)
    with e0 obtain v where v: "elem ?h y = Some v" by (auto simp: list_all_iff)
    then have "deref_ptr ?h y = Inr v" by (rule deref_ptr_elem)
    with ff Cons l v show ?thesis by (simp add: find_sl_def nonnull_def)
  qed
  then show ?thesis by (simp only: ds_def)
qed

text \<open>
  \<^verbatim>\<open>insert\<close> of a key that node \<open>y\<close> of the list holds: the call returns \<open>y\<close>, and the
  list it leaves has the same \<^verbatim>\<open>width_\<close>, the same link targets and the same
  elements; its \<^verbatim>\<open>level_\<close> is the larger of the old one and the drawn level.
\<close>

lemma insert_sl_duplicate:
  assumes ok: "lanes_ok s L" and y: "y \<in> set (L 0)" and ey: "elem (heap s) y = Some key"
    and ins: "insert_sl s key rnd a = Some (Inr (r, s'))"
  shows "r = y \<and> width_m s' = width_m s \<and> level_m s' = max (level_m s) (RandomLevel rnd s) \<and>
         next_at (heap s') = next_at (heap s) \<and> elem (heap s') = elem (heap s)"
proof -
  let ?h = "heap s"
  let ?P = "below ?h key"
  have K0: "0 < kMaxLevel_m s" using ok by (simp add: lanes_ok_def)
  from lanes_okD[OF ok K0] have l0: "lane (next_at ?h 0) (head_m s) (L 0)"
    and s0: "sorted_wrt (<) (keys ?h (L 0))"
    by (simp_all add: lane_ok_def)
  from y obtain pre suf where L0: "L 0 = pre @ y # suf" by (auto dest: split_list)
  have "\<And>z. z \<in> set pre \<Longrightarrow> ?P z"
  proof -
    fix z assume "z \<in> set pre"
    with s0 have "the (elem ?h z) < the (elem ?h y)"
      by (auto simp: L0 keys_def sorted_wrt_append)
    with ey show "?P z" by (simp add: below_def)
  qed
  moreover have "\<not> ?P y" using ey by (simp add: below_def)
  ultimately have dw: "dropWhile ?P (L 0) = y # suf" by (simp add: L0)
  from insert_for_lanes_ok[OF ok, of "kMaxLevel_m s" key] ok obtain x u uw where
    sf: "insert_for ?h key (level_m s) (head_m s) (replicate (kMaxLevel_m s) None)
           (replicate (kMaxLevel_m s) 0) = Some (Inr (x, u, uw))"
    and x: "x = pred_of ?h key (head_m s) (L 0)"
    by (auto simp: lanes_ok_def)
  have nx: "next_at ?h 0 x = Some (Some y)"
    unfolding x using next_at_pred_of[OF l0, of ?h key] dw by simp
  from ins obtain h1 u1 level1 dup where
    ra: "(if RandomLevel rnd s > level_m s
          then bindE (raise_for ?h (head_m s) (RandomLevel rnd s) (level_m s) u)
                 (\<lambda>(h, u). Inr (h, u, RandomLevel rnd s))
          else Inr (?h, u, level_m s)) = Inr (h1, u1, level1)"
    and dp: "insert_dup h1 key x = Inr dup"
    and fin: "(case dup of
         Some y \<Rightarrow> Some (Inr (y, s\<lparr>level_m := level1, heap := h1\<rparr>))
       | None \<Rightarrow>
           liftE (insert_loop (h1(a \<mapsto> CreateNode (Some key) (RandomLevel rnd s))) a u1 uw
                    (RandomLevel rnd s) 0)
             (\<lambda>h3. Some (Inr (a, s\<lparr>level_m := level1, width_m := width_m s + 1, heap := h3\<rparr>))))
        = Some (Inr (r, s'))"
    unfolding insert_sl_def
    using sf by (auto simp: bindR_Inr liftE_Inr Let_def)
  have r1: "next_at h1 = next_at ?h \<and> elem h1 = elem ?h \<and>
            level1 = max (level_m s) (RandomLevel rnd s)"
    using ra by (auto simp: bindE_Inr max_def split: if_splits dest: raise_for_effect)
  then have "next_at h1 0 x = Some (Some y)" "elem h1 y = Some key" using nx ey by simp_all
  then have "insert_dup h1 key x = Inr (Some y)"
    by (auto simp: insert_dup_def next_at_Some dest: deref_ptr_elem)
  with dp have "dup = Some y" by simp
  with fin r1 show ?thesis by auto
qed

section \<open>Calls on concrete lists\<close>

text \<open>
  \<^bold>\<open>C1\<close> (what the code does): on a default list, \<^verbatim>\<open>insert(10)\<close> with a drawn level 2
  and then \<^verbatim>\<open>insert(5)\<close> with a drawn level 1 leave two elements, 5 in node 2 and 10
  in node 1. \<^verbatim>\<open>at(0)\<close> returns node 1, which holds 10 and not the smallest element 5,
  and \<^verbatim>\<open>at(1)\<close> returns null although 1 is less than the size 2: the second insert
  left the width of the head's level-1 link at 1.
\<close>

theorem at_after_insert_below_a_link:
  "bindR (insert_sl (Skip_List_default 0) (10::int) (\<lambda>n. if n = 0 then 0 else 1) 1) (\<lambda>(n10, s1).
   bindR (insert_sl s1 5 (\<lambda>n. 1) 2) (\<lambda>(n5, s2).
   bindR (at_sl s2 0) (\<lambda>(r0, s3).
   bindR (at_sl s2 1) (\<lambda>(r1, s4).
     Some (Inr (length_sl s2, n10, n5, deref_ptr (heap s2) n10, deref_ptr (heap s2) n5,
                r0, r1))))))
   = Some (Inr (2, 1, 2, Inr 10, Inr 5, Some 1, None))"
  by code_simp

text \<open>
  \<^bold>\<open>C3\<close> (what the code does): on a default list, \<^verbatim>\<open>insert(5)\<close> makes the length 1, and
  the following \<^verbatim>\<open>remove(5)\<close> returns the element 5 and leaves the length at 1.
\<close>

theorem length_after_remove:
  "bindR (insert_sl (Skip_List_default 0) (5::int) (\<lambda>n. 1) 1) (\<lambda>(n5, s1).
   bindR (remove_sl s1 5) (\<lambda>(r, s2).
     Some (Inr (length_sl s1, r, length_sl s2))))
   = Some (Inr (1, Some 5, 1))"
  by code_simp

text \<open>
  \<^bold>\<open>C5\<close> (what the code does): on the empty default list \<^verbatim>\<open>find(5)\<close> and \<^verbatim>\<open>remove(5)\<close>
  read through a null pointer, and so do \<^verbatim>\<open>find(7)\<close> and \<^verbatim>\<open>remove(7)\<close> on the list
  that holds 3 only.
\<close>

theorem find_remove_past_the_end:
  "map_option (map_sum id fst) (find_sl (Skip_List_default 0) (5::int)) = Some (Inl NullDeref) \<and>
   map_option (map_sum id fst) (remove_sl (Skip_List_default 0) (5::int)) = Some (Inl NullDeref) \<and>
   bindR (insert_sl (Skip_List_default 0) (3::int) (\<lambda>n. 1) 1) (\<lambda>(n3, s1).
     Some (Inr (map_option (map_sum id fst) (find_sl s1 7),
                map_option (map_sum id fst) (remove_sl s1 7))))
   = Some (Inr (Some (Inl NullDeref), Some (Inl NullDeref)))"
  by code_simp

text \<open>
  \<^bold>\<open>C6\<close> (what the code does): on the default list that holds 5 in node 1, a second
  \<^verbatim>\<open>insert(5)\<close> that draws level 2 returns node 1 and keeps the length 1, and raises
  \<^verbatim>\<open>level_\<close> from 1 to 2 and sets the width of the head's link 1 from 1 to 0.
\<close>

theorem insert_duplicate_raises_level:
  "bindR (insert_sl (Skip_List_default 0) (5::int) (\<lambda>n. 1) 1) (\<lambda>(n5, s1).
   bindR (insert_sl s1 5 (\<lambda>n. if n = 0 then 0 else 1) 2) (\<lambda>(n5', s2).
     Some (Inr (n5, n5', length_sl s1, length_sl s2, level_m s1, level_m s2,
                map_sum id width (read_link (heap s1) (head_m s1) 1),
                map_sum id width (read_link (heap s2) (head_m s2) 1)))))
   = Some (Inr (1, 1, 1, 1, 1, 2, Inr 1, Inr 0))"
  by code_simp

text \<open>
  \<^bold>\<open>C9\<close> (what the code does): on a default list, after \<^verbatim>\<open>insert(5)\<close> the call
  \<^verbatim>\<open>find(5)\<close> returns the node of 5 and \<^verbatim>\<open>remove(5)\<close> returns 5; the \<^verbatim>\<open>find(5)\<close>
  after that reads through a null pointer.
\<close>

theorem find_after_insert_remove:
  "bindR (insert_sl (Skip_List_default 0) (5::int) (\<lambda>n. 1) 1) (\<lambda>(n5, s1).
   bindR (find_sl s1 5) (\<lambda>(f, s1').
   bindR (remove_sl s1 5) (\<lambda>(r, s2).
     Some (Inr (n5, f, r, map_option (map_sum id fst) (find_sl s2 5))))))
   = Some (Inr (1, Some 1, Some 5, Some (Inl NullDeref)))"
  by code_simp

text \<open>
  \<^bold>\<open>C8\<close> (what the code does): the range test of \<^verbatim>\<open>MaxLevel\<close> never returns 0; for every
  \<open>p\<close>, in range or not, the result is the value of the formula.
\<close>

theorem MaxLevel_range_test_is_dead:
  "MaxLevel zero_le formula N p = formula N p"
  by (simp add: MaxLevel_def)

text \<open>
  \<^bold>\<open>C2\<close> (what the code does): on a default list, \<^verbatim>\<open>insert(6)\<close> with a drawn level 2
  (node 1) and then \<^verbatim>\<open>insert(3)\<close> with a drawn level 1 (node 2) leave the level-0
  chain head, node 2, node 1, while the head's level-1 link into node 1 still carries
  width 1: its target is two level-0 steps away. And on a default list, \<^verbatim>\<open>insert(5)\<close>
  with a drawn level 2 (node 1), \<^verbatim>\<open>insert(10)\<close> with a drawn level 1 and \<^verbatim>\<open>remove(10)\<close>
  leave the level-1 link of node 1 with no target and the width \<open>2^64 - 1\<close>, where
  it carried 0 before the \<^verbatim>\<open>remove\<close>.
\<close>

theorem width_of_spanning_link:
  "bindR (insert_sl (Skip_List_default 0) (6::int) (\<lambda>n. if n = 0 then 0 else 1) 1) (\<lambda>(n6, s1).
   bindR (insert_sl s1 3 (\<lambda>n. 1) 2) (\<lambda>(n3, s2).
     Some (Inr (n6, n3, level_m s2,
                map_sum id node (read_link (heap s2) (head_m s2) 0),
                map_sum id node (read_link (heap s2) n3 0),
                map_sum id node (read_link (heap s2) (head_m s2) 1),
                map_sum id width (read_link (heap s2) (head_m s2) 1)))))
   = Some (Inr (1, 2, 2, Inr (Some 2), Inr (Some 1), Inr (Some 1), Inr 1)) \<and>
   bindR (insert_sl (Skip_List_default 0) (5::int) (\<lambda>n. if n = 0 then 0 else 1) 1) (\<lambda>(n5, s1).
   bindR (insert_sl s1 10 (\<lambda>n. 1) 2) (\<lambda>(n10, s2).
   bindR (remove_sl s2 10) (\<lambda>(r, s3).
     Some (Inr (n5, r, level_m s3,
                map_sum id node (read_link (heap s2) n5 1),
                map_sum id width (read_link (heap s2) n5 1),
                map_sum id node (read_link (heap s3) n5 1),
                map_sum id width (read_link (heap s3) n5 1))))))
   = Some (Inr (1, Some 10, 2, Inr None, Inr 0, Inr None, Inr (2 ^ 64 - 1)))"
  by code_simp

section \<open>Properties of every reachable list\<close>

text \<open>
  \<^bold>\<open>C4\<close>: in every list reached by insertions and removals, the walk along the level-0
  links from the head ends, without a fault, and the elements it meets are in strictly
  ascending order, with no element twice.
\<close>

theorem level0_ascending:
  assumes "reachable s"
  shows "\<exists>vs. level0_elements s = Some (Inr vs) \<and> sorted_wrt (<) vs \<and> distinct vs"
proof -
  from reachable_lanes_ok[OF assms] obtain L where ok: "lanes_ok s L" ..
  have K: "0 < kMaxLevel_m s" using ok by (simp add: lanes_ok_def)
  have "sorted_wrt (<) (keys (heap s) (L 0))"
    using lanes_okD[OF ok K] by (simp add: lane_ok_def)
  moreover from this have "distinct (keys (heap s) (L 0))" by (simp add: strict_sorted_iff)
  ultimately show ?thesis using lanes_ok_level0[OF ok] by blast
qed

theorem level0_ascending_witness:
  "reachable list_3_6 \<and> level0_elements list_3_6 = Some (Inr [3, 6]) \<and>
   sorted_wrt (<) [3, 6 :: int] \<and> distinct [3, 6 :: int] \<and>
   reachable list_3 \<and> level0_elements list_3 = Some (Inr [3]) \<and>
   (\<exists>vs. level0_elements list_3_6 = Some (Inr vs) \<and> sorted_wrt (<) vs \<and> distinct vs) \<and>
   (\<exists>vs. level0_elements list_3 = Some (Inr vs) \<and> sorted_wrt (<) vs \<and> distinct vs)"
proof -
  have l: "level0_elements list_3_6 = Some (Inr [3, 6])"
    "level0_elements list_3 = Some (Inr [3])"
    by code_simp+
  from level0_ascending[OF reachable_list_3_6] l(1)
  have "sorted_wrt (<) [3, 6 :: int] \<and> distinct [3, 6 :: int]" by auto
  with level0_ascending[OF reachable_list_3_6] level0_ascending[OF reachable_list_3]
    reachable_list_3_6 reachable_list_3 l
  show ?thesis by simp
qed




text \<open>
  \<^bold>\<open>C10\<close>: on every list and for every index, in range or not, whenever \<^verbatim>\<open>at(index)\<close>
  returns, the list it leaves is the list it was called on (every node, link, width,
  \<^verbatim>\<open>level_\<close> and \<^verbatim>\<open>width_\<close>), and the index operator is the same call with the same
  result. On a reachable list \<^verbatim>\<open>at(index)\<close> does return.
\<close>

theorem at_read_only:
  "(at_sl s index = Some (Inr (r, s')) \<longrightarrow> s' = s) \<and>
   index_operator s index = at_sl s index \<and>
   (reachable s \<longrightarrow> returns (at_sl s index))"
  using reachable_at_returns[of s index]
  by (auto simp: at_sl_def index_operator_def bindR_Inr split: if_splits)

theorem at_read_only_witness:
  "reachable list_3_6 \<and> returns (at_sl list_3_6 0) \<and> returns (at_sl list_3_6 5) \<and>
   state_of (at_sl list_3_6 0) = list_3_6 \<and> state_of (at_sl list_3_6 5) = list_3_6 \<and>
   index_operator list_3_6 0 = at_sl list_3_6 0"
proof -
  have r: "returns (at_sl list_3_6 0)" "returns (at_sl list_3_6 5)"
    using at_read_only[of list_3_6 0] at_read_only[of list_3_6 5] reachable_list_3_6 by blast+
  from r[THEN returns_state_of] at_read_only[of list_3_6 0] at_read_only[of list_3_6 5] r
    reachable_list_3_6
  show ?thesis by metis
qed

end
